theory Spec2Isabelle
  imports Main "HOL-Library.Sublist" "HOL-Library.Char_ord" "HOL-Library.List_Lexorder"
    "HOL-Library.Multiset"
begin

section \<open>Values, errors and task definitions\<close>

text \<open>
  JavaScript values as far as the engine looks at them. Parameter objects are maps from
  property names to values; object spread \<open>{...a, ...b}\<close> is \<open>a ++ b\<close>.
\<close>

datatype jsvalue =
    JUndefined
  | JNull
  | JBool bool
  | JNum int
  | JStr string
  | JObj "string \<Rightarrow> jsvalue option"

type_synonym params = "string \<Rightarrow> jsvalue option"

text \<open>
  Every error of the engine is a plain \<open>Error\<close> that the code tells apart by its message
  only. The constructors follow the throw sites; \<open>message\<close> is the text the code builds.
\<close>

datatype error =
    UnknownTaskType string
  | InvalidParameters string
  | ExecutionTimeout string int
  | HandlerError string
  | InvalidCronExpression string string
  | TypeError string

text \<open>Numbers in messages and ids, as JavaScript prints them: decimal, no leading zeros.\<close>

definition digit :: "nat \<Rightarrow> string" where
  "digit n = take 1 (drop n ''0123456789'')"

fun dec :: "nat \<Rightarrow> string" where
  "dec n = (if n < 10 then digit n else dec (n div 10) @ digit (n mod 10))"

declare dec.simps [simp del]

definition show_int :: "int \<Rightarrow> string" where
  "show_int i = (if i < 0 then CHR ''-'' # dec (nat (- i)) else dec (nat i))"

fun message :: "error \<Rightarrow> string" where
  "message (UnknownTaskType t) = ''Unknown task type: '' @ t"
| "message (InvalidParameters m) = ''Invalid parameters for task: '' @ m"
| "message (ExecutionTimeout t ms) = ''Task '' @ t @ '' timed out after '' @ show_int ms @ ''ms''"
| "message (HandlerError m) = m"
| "message (InvalidCronExpression c t) = ''Invalid cron expression: '' @ c @ '' for task '' @ t"
| "message (TypeError m) = m"

text \<open>
  An entry of \<open>retryableErrors\<close>: a string (matched with \<open>includes\<close>), a regular expression
  (its \<open>test\<close> as a predicate on the message), or anything else (never matches).
\<close>

datatype error_pattern =
    StringPattern string
  | RegExpPattern "string \<Rightarrow> bool"
  | OtherPattern

record retry_policy =
  maxRetries :: "int option"
  baseDelayMs :: "int option"
  maxDelayMs :: "int option"
  retryableErrors :: "error_pattern list option"

text \<open>
  A parameters schema is either a zod schema, whose \<open>parse\<close> accepts (\<open>None\<close>) or throws
  with a message, or some other object, which the code takes for a JSON schema and does
  not check.
\<close>

datatype schema =
    ZodSchema "params \<Rightarrow> string option"
  | JsonSchema

text \<open>
  What \<open>Promise.race([executionPromise, timeoutPromise])\<close> yields for one handler
  invocation: the handler resolves first, the handler rejects (or throws) first, or the
  deadline timer fires first. In the last case the handler goes on and may still settle
  later, or never. Which one happens is decided by the handler and the runtime, given
  the delay of the timer, so it is the handler's answer in the model.
\<close>

datatype late_settlement =
    ResolvesLater jsvalue
  | RejectsLater string
  | NeverSettles

datatype race_outcome =
    HandlerResolves jsvalue
  | HandlerRejects string
  | TimerFires late_settlement

text \<open>
  A handler is a unit of work outside the engine: given the merged parameters and the
  execution id it acts on the outside world \<open>'w\<close>. Its third argument is the delay of the
  timer that it is raced against. The world it returns holds all its effects, also those
  after the timer has fired: nothing cancels a handler.
\<close>

record 'w task_definition =
  handler :: "params \<Rightarrow> string \<Rightarrow> int \<Rightarrow> 'w \<Rightarrow> race_outcome \<times> 'w"
  cronSchedule :: "string option"
  parametersSchema :: "schema option"
  defaultParameters :: "params option"
  timeoutMs :: "int option"
  retryPolicy :: "retry_policy option"

text \<open>
  The registry is an object literal: its entries in the order of \<open>Object.entries\<close>, with
  distinct task types. \<open>taskDefinitions[taskType]\<close> finds an entry of the registry, or
  else, for the names that every object inherits from \<open>Object.prototype\<close>, a function or
  object that is truthy and has none of a definition's properties, or else \<open>undefined\<close>.
\<close>

type_synonym 'w registry = "(string \<times> 'w task_definition) list"

definition object_prototype_names :: "string list" where
  "object_prototype_names =
     [''constructor'', ''hasOwnProperty'', ''isPrototypeOf'', ''propertyIsEnumerable'',
      ''toLocaleString'', ''toString'', ''valueOf'', ''__proto__'', ''__defineGetter__'',
      ''__defineSetter__'', ''__lookupGetter__'', ''__lookupSetter__'']"

datatype 'w property =
    Own "'w task_definition"
  | Inherited
  | Missing

definition lookup :: "'w registry \<Rightarrow> string \<Rightarrow> 'w property" where
  "lookup defs taskType =
     (case map_of defs taskType of
        Some taskDefinition \<Rightarrow> Own taskDefinition
      | None \<Rightarrow> if taskType \<in> set object_prototype_names then Inherited else Missing)"

section \<open>The task executor\<close>

datatype event =
    Invoke string string int
  | RetryWait nat int

record 'w exec_state =
  world :: 'w
  trace :: "event list"

record retry_state =
  attemptsRemaining :: int
  lastError :: error
  retryCount :: nat
  originalExecutionId :: string

text \<open>
  \<open>setTimeout\<close> takes a delay below 1 or above \<open>2^31 - 1\<close> for 1. \<open>Invoke\<close> records a handler
  invocation with the delay of the timer armed for it, \<open>RetryWait\<close> a wait before a retry
  with the retry's number and the delay that the code computed.
\<close>

definition timer_delay :: "int \<Rightarrow> int" where
  "timer_delay ms = (if ms < 1 \<or> 2147483647 < ms then 1 else ms)"

definition log_event :: "event \<Rightarrow> 'w exec_state \<Rightarrow> 'w exec_state" where
  "log_event e s = s\<lparr>trace := trace s @ [e]\<rparr>"

text \<open>\<open>x || d\<close> on an optional number: \<open>undefined\<close> and \<open>0\<close> are falsy.\<close>

definition or_default :: "int option \<Rightarrow> int \<Rightarrow> int" where
  "or_default x d = (case x of None \<Rightarrow> d | Some v \<Rightarrow> if v = 0 then d else v)"

definition validateParameters :: "'w task_definition \<Rightarrow> params \<Rightarrow> error + bool" where
  "validateParameters taskDefinition parameters =
     (case parametersSchema taskDefinition of
        None \<Rightarrow> Inr True
      | Some (ZodSchema parse) \<Rightarrow>
          (case parse parameters of
             None \<Rightarrow> Inr True
           | Some m \<Rightarrow> Inl (InvalidParameters m))
      | Some JsonSchema \<Rightarrow> Inr True)"

fun matches :: "string \<Rightarrow> error_pattern \<Rightarrow> bool" where
  "matches m (StringPattern p) = sublist p m"
| "matches m (RegExpPattern test) = test m"
| "matches m OtherPattern = False"

definition shouldRetry :: "retry_policy \<Rightarrow> error \<Rightarrow> bool" where
  "shouldRetry policy err =
     (case maxRetries policy of
        None \<Rightarrow> False
      | Some n \<Rightarrow>
          if n \<le> 0 then False
          else (case retryableErrors policy of
                  Some pats \<Rightarrow> list_ex (matches (message err)) pats
                | None \<Rightarrow> True))"

text \<open>The body of the \<open>try\<close> block of \<open>execute\<close>: validate, merge, arm the timer, run the race.\<close>

definition attempt ::
  "'w task_definition \<Rightarrow> string \<Rightarrow> params \<Rightarrow> string \<Rightarrow> 'w exec_state \<Rightarrow> 'w exec_state \<times> (error + jsvalue)"
where
  "attempt taskDefinition taskType parameters executionId s =
     (case validateParameters taskDefinition parameters of
        Inl e \<Rightarrow> (s, Inl e)
      | Inr _ \<Rightarrow>
          let mergedParameters =
                (case defaultParameters taskDefinition of None \<Rightarrow> Map.empty | Some d \<Rightarrow> d) ++ parameters;
              timeout = or_default (timeoutMs taskDefinition) 300000;
              s1 = log_event (Invoke taskType executionId (timer_delay timeout)) s;
              (outcome, w) = handler taskDefinition mergedParameters executionId
                               (timer_delay timeout) (world s1);
              s2 = s1\<lparr>world := w\<rparr>
          in (case outcome of
                HandlerResolves v \<Rightarrow> (s2, Inr v)
              | HandlerRejects m \<Rightarrow> (s2, Inl (HandlerError m))
              | TimerFires late \<Rightarrow> (s2, Inl (ExecutionTimeout taskType timeout))))"

definition handleRetry :: "string \<Rightarrow> retry_policy \<Rightarrow> error \<Rightarrow> retry_state" where
  "handleRetry executionId policy originalError =
     \<lparr>attemptsRemaining = (case maxRetries policy of Some n \<Rightarrow> n | None \<Rightarrow> 0),
      lastError = originalError,
      retryCount = 0,
      originalExecutionId = executionId\<rparr>"

definition retryDelay :: "retry_policy \<Rightarrow> nat \<Rightarrow> int" where
  "retryDelay policy k =
     min (or_default (baseDelayMs policy) 1000 * 2 ^ (k - 1))
         (or_default (maxDelayMs policy) 30000)"

definition retryExecutionId :: "retry_state \<Rightarrow> string" where
  "retryExecutionId rs = ''retry-'' @ dec (retryCount rs) @ ''-'' @ originalExecutionId rs"

text \<open>
  \<open>execute\<close> and \<open>retryExecution\<close> call each other, and nothing in the source bounds the
  depth of those calls, so the model carries fuel: one unit per call, and \<open>None\<close> as the
  result means that the call had not returned when the fuel ran out. For an inherited
  name the \<open>try\<close> block gets as far as calling \<open>taskDefinition.handler\<close>, which is
  \<open>undefined\<close>; there is no retry policy, so the \<open>TypeError\<close> is rethrown.
\<close>

fun execute ::
  "nat \<Rightarrow> 'w registry \<Rightarrow> string \<Rightarrow> params \<Rightarrow> string \<Rightarrow> 'w exec_state
     \<Rightarrow> 'w exec_state \<times> (error + jsvalue) option"
and retryExecution ::
  "nat \<Rightarrow> 'w registry \<Rightarrow> string \<Rightarrow> params \<Rightarrow> retry_state \<Rightarrow> 'w exec_state
     \<Rightarrow> 'w exec_state \<times> (error + jsvalue) option"
where
  "execute 0 defs taskType parameters executionId s = (s, None)"
| "execute (Suc fuel) defs taskType parameters executionId s =
     (case lookup defs taskType of
        Missing \<Rightarrow> (s, Some (Inl (UnknownTaskType taskType)))
      | Inherited \<Rightarrow> (s, Some (Inl (TypeError ''taskDefinition.handler is not a function'')))
      | Own taskDefinition \<Rightarrow>
          (case attempt taskDefinition taskType parameters executionId s of
             (s1, Inr result) \<Rightarrow> (s1, Some (Inr result))
           | (s1, Inl err) \<Rightarrow>
               (case retryPolicy taskDefinition of
                  None \<Rightarrow> (s1, Some (Inl err))
                | Some rp \<Rightarrow>
                    if shouldRetry rp err
                    then retryExecution fuel defs taskType parameters
                           (handleRetry executionId rp err) s1
                    else (s1, Some (Inl err)))))"
| "retryExecution 0 defs taskType parameters rs s = (s, None)"
| "retryExecution (Suc fuel) defs taskType parameters rs s =
     (if attemptsRemaining rs \<le> 0 then (s, Some (Inl (lastError rs)))
      else
        let rs1 = rs\<lparr>attemptsRemaining := attemptsRemaining rs - 1,
                     retryCount := retryCount rs + 1\<rparr>
        in (case lookup defs taskType of
              Missing \<Rightarrow> (s, Some (Inl (TypeError ''Cannot read properties of undefined'')))
            | Inherited \<Rightarrow> (s, Some (Inl (TypeError ''Cannot read properties of undefined'')))
            | Own taskDefinition \<Rightarrow>
                (case retryPolicy taskDefinition of
                   None \<Rightarrow> (s, Some (Inl (TypeError ''Cannot read properties of undefined'')))
                 | Some rp \<Rightarrow>
                     let delay = retryDelay rp (retryCount rs1);
                         s1 = log_event (RetryWait (retryCount rs1) delay) s
                     in (case execute fuel defs taskType parameters (retryExecutionId rs1) s1 of
                           (s2, None) \<Rightarrow> (s2, None)
                         | (s2, Some (Inr result)) \<Rightarrow> (s2, Some (Inr result))
                         | (s2, Some (Inl err)) \<Rightarrow>
                             retryExecution fuel defs taskType parameters
                               (rs1\<lparr>lastError := err\<rparr>) s2))))"

section \<open>The history store\<close>

text \<open>
  The object that \<open>executeTask\<close> hands to \<open>saveTaskHistory\<close>, and the stored entry, which
  adds \<open>id\<close> and \<open>createdAt\<close>. Times are ISO strings, as \<open>toISOString\<close> gives them.
\<close>

record execution_record =
  executionId :: string
  taskType :: string
  parameters :: params
  startTime :: string
  endTime :: string
  duration :: int
  success :: bool
  result :: jsvalue
  error :: "string option"

record history_entry = execution_record +
  id_field :: string
  createdAt :: string

text \<open>
  \<open>saveTaskHistory\<close> pushes the entry on the module's array and keeps the last 1000.
  \<open>now\<close>, \<open>rnd\<close> and \<open>stamp\<close> are what \<open>Date.now()\<close>, the random suffix and
  \<open>new Date().toISOString()\<close> give at the call.
\<close>

definition saveTaskHistory ::
  "nat \<Rightarrow> string \<Rightarrow> string \<Rightarrow> execution_record \<Rightarrow> history_entry list
     \<Rightarrow> history_entry \<times> history_entry list"
where
  "saveTaskHistory now rnd stamp historyEntry taskHistoryArray =
     (let entry = execution_record.extend historyEntry
                    (history_entry.fields (''history-'' @ dec now @ ''-'' @ rnd) stamp);
          pushed = taskHistoryArray @ [entry]
      in (entry,
          if length pushed > 1000 then drop (length pushed - 1000) pushed else pushed))"

text \<open>
  The query options. The route and the specification allow three sort keys; the order is
  any string, compared with \<open>'desc'\<close> after \<open>toLowerCase\<close>.
\<close>

datatype sort_key = StartTime | EndTime | Duration

record query_options =
  limit :: "int option"
  offset :: "int option"
  sortBy :: "sort_key option"
  sortOrder :: "string option"

record pagination_info =
  total :: int
  page_limit :: int
  page_offset :: int
  hasMore :: bool

record query_result =
  history :: "history_entry list"
  pagination :: pagination_info

text \<open>\<open>toLowerCase\<close> on ASCII: a capital letter gets bit 5 set.\<close>

fun lower_char :: "char \<Rightarrow> char" where
  "lower_char (Char b0 b1 b2 b3 b4 b5 b6 b7) =
     (if CHR ''A'' \<le> Char b0 b1 b2 b3 b4 b5 b6 b7 \<and> Char b0 b1 b2 b3 b4 b5 b6 b7 \<le> CHR ''Z''
      then Char b0 b1 b2 b3 b4 True b6 b7
      else Char b0 b1 b2 b3 b4 b5 b6 b7)"

definition toLowerCase :: "string \<Rightarrow> string" where
  "toLowerCase s = map lower_char s"

text \<open>\<open>x[key] > y[key]\<close>: strings by code unit, numbers by value.\<close>

fun field_gt :: "sort_key \<Rightarrow> history_entry \<Rightarrow> history_entry \<Rightarrow> bool" where
  "field_gt StartTime x y = (startTime x > startTime y)"
| "field_gt EndTime x y = (endTime x > endTime y)"
| "field_gt Duration x y = (duration x > duration y)"

definition compareFn :: "sort_key \<Rightarrow> string \<Rightarrow> history_entry \<Rightarrow> history_entry \<Rightarrow> int" where
  "compareFn key order a b =
     (if toLowerCase order = ''desc''
      then (if field_gt key b a then 1 else -1)
      else (if field_gt key a b then 1 else -1))"

text \<open>
  \<open>Array.prototype.sort\<close> with a comparator, as insertion into the sorted prefix: an
  element goes in front of the first one it does not compare greater than. The comparator
  above never answers 0, so for entries with equal keys the engine is free in their order;
  for pairwise distinct keys every engine gives this result.
\<close>

fun insert_by :: "('a \<Rightarrow> 'a \<Rightarrow> int) \<Rightarrow> 'a \<Rightarrow> 'a list \<Rightarrow> 'a list" where
  "insert_by cmp x [] = [x]"
| "insert_by cmp x (y # ys) = (if cmp x y > 0 then y # insert_by cmp x ys else x # y # ys)"

definition js_sort :: "('a \<Rightarrow> 'a \<Rightarrow> int) \<Rightarrow> 'a list \<Rightarrow> 'a list" where
  "js_sort cmp xs = foldl (\<lambda>acc x. insert_by cmp x acc) [] xs"

text \<open>\<open>Array.prototype.slice(start, end)\<close>: negative indices count from the end.\<close>

definition js_slice :: "'a list \<Rightarrow> int \<Rightarrow> int \<Rightarrow> 'a list" where
  "js_slice xs start fin =
     (let len = int (length xs);
          k = (if start < 0 then max (len + start) 0 else min start len);
          final = (if fin < 0 then max (len + fin) 0 else min fin len)
      in take (nat (final - k)) (drop (nat k) xs))"

text \<open>
  \<open>getTaskHistory\<close> returns its answer and the module's array after the call: \<open>sort\<close> works
  in place, on the array that \<open>filter\<close> built when a task type is given, and on
  \<open>taskHistoryArray\<close> itself otherwise. A task type of \<open>undefined\<close>, \<open>null\<close> or \<open>''\<close>
  is falsy. With options of these types nothing in the \<open>try\<close> block throws, so the
  \<open>catch\<close> block's empty answer does not occur.
\<close>

definition getTaskHistory ::
  "string option \<Rightarrow> query_options \<Rightarrow> history_entry list \<Rightarrow> query_result \<times> history_entry list"
where
  "getTaskHistory ttype options taskHistoryArray =
     (let lim = (case limit options of None \<Rightarrow> 10 | Some l \<Rightarrow> l);
          off = (case offset options of None \<Rightarrow> 0 | Some k \<Rightarrow> k);
          key = (case sortBy options of None \<Rightarrow> StartTime | Some k \<Rightarrow> k);
          order = (case sortOrder options of None \<Rightarrow> ''desc'' | Some d \<Rightarrow> d);
          given = (case ttype of None \<Rightarrow> False | Some t \<Rightarrow> t \<noteq> []);
          filteredHistory =
            (case ttype of
               None \<Rightarrow> taskHistoryArray
             | Some t \<Rightarrow> if t \<noteq> [] then filter (\<lambda>entry. taskType entry = t) taskHistoryArray
                         else taskHistoryArray);
          sortedHistory = js_sort (compareFn key order) filteredHistory;
          paginatedHistory = js_slice sortedHistory off (off + lim)
      in (\<lparr>history = paginatedHistory,
           pagination = \<lparr>total = int (length sortedHistory), page_limit = lim, page_offset = off,
                         hasMore = (off + lim < int (length sortedHistory))\<rparr>\<rparr>,
          if given then taskHistoryArray else sortedHistory))"

section \<open>The scheduler\<close>

text \<open>
  The node-cron library as the scheduler uses it: \<open>cron.schedule\<close> makes a running job,
  \<open>stop\<close> stops one, and a job's callback is run at a tick only while the job is running.
  \<open>jobs\<close> holds every job made so far; a job's handle is its position. \<open>cron.validate\<close>
  is a parameter.
\<close>

record cron_job =
  jobTaskType :: string
  expression :: string
  running :: bool

record scheduler =
  jobs :: "cron_job list"
  scheduledJobs :: "string \<Rightarrow> nat option"
  ready :: bool

definition stop :: "nat \<Rightarrow> cron_job list \<Rightarrow> cron_job list" where
  "stop j js = (if j < length js then js[j := (js ! j)\<lparr>running := False\<rparr>] else js)"

definition new_scheduler :: scheduler where
  "new_scheduler = \<lparr>jobs = [], scheduledJobs = Map.empty, ready = False\<rparr>"

definition scheduleTask ::
  "(string \<Rightarrow> bool) \<Rightarrow> 'w registry \<Rightarrow> string \<Rightarrow> string \<Rightarrow> scheduler \<Rightarrow> error + scheduler"
where
  "scheduleTask validate defs ttype cronExpression st =
     (if (case lookup defs ttype of Missing \<Rightarrow> True | Inherited \<Rightarrow> False | Own d \<Rightarrow> False)
      then Inl (UnknownTaskType ttype)
      else if \<not> validate cronExpression then Inl (InvalidCronExpression cronExpression ttype)
      else
        let stopped = (case scheduledJobs st ttype of
                         Some j \<Rightarrow> stop j (jobs st)
                       | None \<Rightarrow> jobs st);
            job = length stopped
        in Inr (st\<lparr>jobs := stopped @ [\<lparr>jobTaskType = ttype, expression = cronExpression,
                                          running = True\<rparr>],
                   scheduledJobs := (scheduledJobs st)(ttype \<mapsto> job)\<rparr>))"

text \<open>
  The \<open>forEach\<close> of \<open>initialize\<close> over the registry's entries: the first \<open>scheduleTask\<close>
  that throws ends it, with the scheduler as the earlier calls left it.
\<close>

fun schedule_entries ::
  "(string \<Rightarrow> bool) \<Rightarrow> 'w registry \<Rightarrow> 'w registry \<Rightarrow> scheduler \<Rightarrow> scheduler \<times> error option"
where
  "schedule_entries validate defs [] st = (st, None)"
| "schedule_entries validate defs ((ttype, definition) # rest) st =
     (case cronSchedule definition of
        None \<Rightarrow> schedule_entries validate defs rest st
      | Some c \<Rightarrow>
          if c = [] then schedule_entries validate defs rest st
          else (case scheduleTask validate defs ttype c st of
                  Inl e \<Rightarrow> (st, Some e)
                | Inr st1 \<Rightarrow> schedule_entries validate defs rest st1))"

definition initialize ::
  "(string \<Rightarrow> bool) \<Rightarrow> 'w registry \<Rightarrow> scheduler \<Rightarrow> scheduler \<times> error option"
where
  "initialize validate defs st =
     (case schedule_entries validate defs defs st of
        (st1, None) \<Rightarrow> (st1\<lparr>ready := True\<rparr>, None)
      | (st1, Some e) \<Rightarrow> (st1, Some e))"

text \<open>
  \<open>setupScheduler\<close> makes the state, runs \<open>initialize\<close> and returns the scheduler; a
  rejection of \<open>initialize\<close> is logged and dropped, so that its caller sees it only in
  \<open>ready\<close> staying false.
\<close>

definition setupScheduler :: "(string \<Rightarrow> bool) \<Rightarrow> 'w registry \<Rightarrow> scheduler" where
  "setupScheduler validate defs = fst (initialize validate defs new_scheduler)"

text \<open>A tick of job \<open>j\<close> runs its callback exactly when the job is still running.\<close>

definition fires :: "scheduler \<Rightarrow> nat \<Rightarrow> bool" where
  "fires st j = (j < length (jobs st) \<and> running (jobs st ! j))"

definition live_entries :: "scheduler \<Rightarrow> string \<Rightarrow> nat list" where
  "live_entries st ttype =
     filter (\<lambda>j. running (jobs st ! j) \<and> jobTaskType (jobs st ! j) = ttype) [0..<length (jobs st)]"

fun schedule_calls ::
  "(string \<Rightarrow> bool) \<Rightarrow> 'w registry \<Rightarrow> (string \<times> string) list \<Rightarrow> scheduler \<Rightarrow> scheduler"
where
  "schedule_calls validate defs [] st = st"
| "schedule_calls validate defs ((ttype, c) # calls) st =
     (case scheduleTask validate defs ttype c st of
        Inl e \<Rightarrow> schedule_calls validate defs calls st
      | Inr st1 \<Rightarrow> schedule_calls validate defs calls st1)"

section \<open>Executing a task on request\<close>

datatype lifecycle =
    TaskStart string string
  | TaskSuccess string string jsvalue
  | TaskFailure string string string

record 'w service =
  engine :: "'w exec_state"
  store :: "history_entry list"
  emitted :: "lifecycle list"

text \<open>
  What one call of \<open>executeTask\<close> reads from the clock and the random source, in the order
  of the reads, and the library's \<open>toISOString\<close>.
\<close>

record readings =
  startNow :: nat
  idNow :: nat
  idRandom :: string
  endNow :: nat
  saveNow :: nat
  saveRandom :: string
  saveStamp :: string
  toISOString :: "nat \<Rightarrow> string"

record envelope =
  env_executionId :: string
  env_success :: bool
  env_startTime :: nat
  env_endTime :: nat
  env_duration :: int
  env_result :: jsvalue

fun falsy :: "jsvalue \<Rightarrow> bool" where
  "falsy JUndefined = True"
| "falsy JNull = True"
| "falsy (JBool b) = (\<not> b)"
| "falsy (JNum n) = (n = 0)"
| "falsy (JStr s) = (s = [])"
| "falsy (JObj m) = False"

definition executeTask ::
  "nat \<Rightarrow> 'w registry \<Rightarrow> readings \<Rightarrow> string \<Rightarrow> params \<Rightarrow> 'w service
     \<Rightarrow> 'w service \<times> (error + envelope) option"
where
  "executeTask fuel defs rd ttype args sv =
     (let start = startNow rd;
          execId = ''exec-'' @ dec (idNow rd) @ ''-'' @ idRandom rd;
          sv1 = sv\<lparr>emitted := emitted sv @ [TaskStart ttype execId]\<rparr>
      in (case execute fuel defs ttype args execId (engine sv1) of
            (s, None) \<Rightarrow> (sv1\<lparr>engine := s\<rparr>, None)
          | (s, Some (Inr res)) \<Rightarrow>
              let fin = endNow rd;
                  dur = int fin - int start;
                  (entry, arr) =
                    saveTaskHistory (saveNow rd) (saveRandom rd) (saveStamp rd)
                      \<lparr>executionId = execId, taskType = ttype, parameters = args,
                       startTime = toISOString rd start, endTime = toISOString rd fin,
                       duration = dur, success = True,
                       result = (if falsy res then JObj Map.empty else res),
                       error = None\<rparr>
                      (store sv1)
              in (sv1\<lparr>engine := s, store := arr,
                      emitted := emitted sv1 @ [TaskSuccess ttype execId res]\<rparr>,
                  Some (Inr \<lparr>env_executionId = execId, env_success = True,
                             env_startTime = start, env_endTime = fin, env_duration = dur,
                             env_result = res\<rparr>))
          | (s, Some (Inl err)) \<Rightarrow>
              let fin = endNow rd;
                  dur = int fin - int start;
                  (entry, arr) =
                    saveTaskHistory (saveNow rd) (saveRandom rd) (saveStamp rd)
                      \<lparr>executionId = execId, taskType = ttype, parameters = args,
                       startTime = toISOString rd start, endTime = toISOString rd fin,
                       duration = dur, success = False, result = JNull,
                       error = Some (message err)\<rparr>
                      (store sv1)
              in (sv1\<lparr>engine := s, store := arr,
                      emitted := emitted sv1 @ [TaskFailure ttype execId (message err)]\<rparr>,
                  Some (Inl err))))"

section \<open>Predicates on runs, and the inputs of the worked runs\<close>

text \<open>The second state's trace is the first one's followed by events that all satisfy \<open>P\<close>.\<close>

definition extends_with :: "(event \<Rightarrow> bool) \<Rightarrow> 'w exec_state \<Rightarrow> 'w exec_state \<Rightarrow> bool" where
  "extends_with P s s' = (\<exists>new. trace s' = trace s @ new \<and> list_all P new)"

text \<open>
  A wait before retry \<open>k\<close> of a chain under policy \<open>rp\<close>: \<open>k\<close> is between 1 and
  \<open>maxRetries\<close>, and the delay is the capped exponential of \<open>k\<close>.
\<close>

fun wait_ok :: "retry_policy \<Rightarrow> event \<Rightarrow> bool" where
  "wait_ok rp (RetryWait k d) =
     (1 \<le> k \<and> int k \<le> (case maxRetries rp of Some n \<Rightarrow> n | None \<Rightarrow> 0) \<and>
      d = min ((case baseDelayMs rp of None \<Rightarrow> 1000 | Some b \<Rightarrow> if b = 0 then 1000 else b)
                 * 2 ^ (k - 1))
              (case maxDelayMs rp of None \<Rightarrow> 30000 | Some c \<Rightarrow> if c = 0 then 30000 else c))"
| "wait_ok rp (Invoke t e ms) = True"

definition fresh :: "nat exec_state" where
  "fresh = \<lparr>world = 0, trace = []\<rparr>"

definition retry_all :: "int \<Rightarrow> retry_policy" where
  "retry_all n = \<lparr>maxRetries = Some n, baseDelayMs = Some 1000, maxDelayMs = Some 30000,
                  retryableErrors = None\<rparr>"

definition retry_timeouts :: "int \<Rightarrow> retry_policy" where
  "retry_timeouts n = \<lparr>maxRetries = Some n, baseDelayMs = Some 1000, maxDelayMs = Some 30000,
                       retryableErrors = Some [StringPattern ''timeout'']\<rparr>"

text \<open>
  Handlers over a world that counts their invocations: one that always rejects, two that
  reject three times and twice and then resolve, one that rejects once with a retryable
  message and from then on with another one, one that never settles, one that loses
  the race at its first invocation and resolves at the next ones, and one that resolves
  after 500000 ms, so that it wins the race against a timer of a longer delay only.
\<close>

definition always_failing :: "nat task_definition" where
  "always_failing =
     \<lparr>handler = (\<lambda>p e d w. (HandlerRejects ''connection reset'', Suc w)),
      cronSchedule = None, parametersSchema = None, defaultParameters = None,
      timeoutMs = None, retryPolicy = Some (retry_all 3)\<rparr>"

definition fails_thrice :: "nat task_definition" where
  "fails_thrice =
     \<lparr>handler = (\<lambda>p e d w. (if w < 3 then HandlerRejects ''connection reset''
                            else HandlerResolves (JNum 7), Suc w)),
      cronSchedule = None, parametersSchema = None, defaultParameters = None,
      timeoutMs = None, retryPolicy = Some (retry_all 3)\<rparr>"

definition fails_twice :: "nat task_definition" where
  "fails_twice =
     \<lparr>handler = (\<lambda>p e d w. (if w < 2 then HandlerRejects ''connection reset''
                            else HandlerResolves (JNum 7), Suc w)),
      cronSchedule = None, parametersSchema = None, defaultParameters = None,
      timeoutMs = None, retryPolicy = Some (retry_all 1)\<rparr>"

definition timeout_then_broken :: "nat task_definition" where
  "timeout_then_broken =
     \<lparr>handler = (\<lambda>p e d w. (if w < 1 then HandlerRejects ''upstream timeout''
                            else HandlerRejects ''boom'', Suc w)),
      cronSchedule = None, parametersSchema = None, defaultParameters = None,
      timeoutMs = None, retryPolicy = Some (retry_timeouts 3)\<rparr>"

definition hanging :: "nat task_definition" where
  "hanging =
     \<lparr>handler = (\<lambda>p e d w. (TimerFires NeverSettles, Suc w)),
      cronSchedule = None, parametersSchema = None, defaultParameters = None,
      timeoutMs = None, retryPolicy = None\<rparr>"

definition times_out_once :: "retry_policy option \<Rightarrow> nat task_definition" where
  "times_out_once rp =
     \<lparr>handler = (\<lambda>p e d w. (if w < 1 then TimerFires (ResolvesLater (JNum 1))
                              else HandlerResolves (JNum 7), Suc w)),
      cronSchedule = None, parametersSchema = None, defaultParameters = None,
      timeoutMs = None, retryPolicy = rp\<rparr>"


text \<open>A schema that wants a \<open>batchSize\<close>, under a policy given as a parameter.\<close>

definition needs_batchSize :: "retry_policy option \<Rightarrow> nat task_definition" where
  "needs_batchSize rp =
     \<lparr>handler = (\<lambda>p e d w. (HandlerResolves JNull, Suc w)),
      cronSchedule = None,
      parametersSchema = Some (ZodSchema (\<lambda>p. if p ''batchSize'' = None then Some ''Required''
                                               else None)),
      defaultParameters = None, timeoutMs = None, retryPolicy = rp\<rparr>"

text \<open>
  A tick of job \<open>j\<close>: the library runs the job's callback when the job is running. The
  callback calls \<open>executeTask\<close> with no parameters and logs its outcome, also a failure.
\<close>

definition tick ::
  "nat \<Rightarrow> 'w registry \<Rightarrow> readings \<Rightarrow> scheduler \<Rightarrow> nat \<Rightarrow> 'w service \<Rightarrow> 'w service"
where
  "tick fuel defs rd st j sv =
     (if fires st j
      then fst (executeTask fuel defs rd (jobTaskType (jobs st ! j)) Map.empty sv)
      else sv)"

text \<open>The order that a query asks for: \<open>x\<close> may stand before \<open>y\<close>.\<close>

fun key_le :: "sort_key \<Rightarrow> history_entry \<Rightarrow> history_entry \<Rightarrow> bool" where
  "key_le StartTime x y = (startTime x \<le> startTime y)"
| "key_le EndTime x y = (endTime x \<le> endTime y)"
| "key_le Duration x y = (duration x \<le> duration y)"

definition in_order :: "sort_key \<Rightarrow> string \<Rightarrow> history_entry \<Rightarrow> history_entry \<Rightarrow> bool" where
  "in_order key order x y =
     (if toLowerCase order = ''desc'' then key_le key y x else key_le key x y)"

text \<open>The entries that a query for \<open>ttype\<close> is about.\<close>

definition matching :: "string option \<Rightarrow> history_entry list \<Rightarrow> history_entry list" where
  "matching ttype entries =
     (case ttype of
        None \<Rightarrow> entries
      | Some t \<Rightarrow> if t = [] then entries else filter (\<lambda>h. taskType h = t) entries)"

definition entry_at :: "string \<Rightarrow> string \<Rightarrow> string \<Rightarrow> int \<Rightarrow> history_entry" where
  "entry_at eid ttype t d =
     \<lparr>executionId = eid, taskType = ttype, parameters = Map.empty, startTime = t, endTime = t,
      duration = d, success = True, result = JObj Map.empty, error = None,
      id_field = ''history-'' @ eid, createdAt = t\<rparr>"

definition no_options :: query_options where
  "no_options = \<lparr>limit = None, offset = None, sortBy = None, sortOrder = None\<rparr>"

definition five_entries :: "history_entry list" where
  "five_entries =
     [entry_at ''exec-1'' ''cleanup'' ''2024-01-03T02:00:00.000Z'' 50,
      entry_at ''exec-2'' ''email-digest'' ''2024-01-04T06:00:00.000Z'' 30,
      entry_at ''exec-3'' ''cleanup'' ''2024-01-10T02:00:00.000Z'' 40,
      entry_at ''exec-4'' ''cleanup'' ''2024-01-17T02:00:00.000Z'' 70,
      entry_at ''exec-5'' ''cleanup'' ''2024-01-24T02:00:00.000Z'' 60]"

definition idle :: "nat service" where
  "idle = \<lparr>engine = fresh, store = [], emitted = []\<rparr>"

definition clock :: readings where
  "clock = \<lparr>startNow = 1000, idNow = 1000, idRandom = ''k3x9q2a'', endNow = 1002,
            saveNow = 1002, saveRandom = ''p0m4z7c'', saveStamp = ''1970-01-01T00:00:01.002Z'',
            toISOString = (\<lambda>n. ''t'' @ dec n)\<rparr>"

text \<open>
  The registry's entries that carry a cron expression, in the registry's order, and the
  link between the table and the jobs that the scheduler keeps: an entry of the table is
  a running job of its task type, and every running job is the entry of its task type.
\<close>

fun cron_entries :: "'w registry \<Rightarrow> (string \<times> string) list" where
  "cron_entries [] = []"
| "cron_entries ((ttype, definition) # rest) =
     (case cronSchedule definition of
        None \<Rightarrow> cron_entries rest
      | Some c \<Rightarrow> if c = [] then cron_entries rest else (ttype, c) # cron_entries rest)"

definition table_ok :: "scheduler \<Rightarrow> bool" where
  "table_ok st =
     ((\<forall>t j. scheduledJobs st t = Some j \<longrightarrow>
         j < length (jobs st) \<and> jobTaskType (jobs st ! j) = t \<and> running (jobs st ! j)) \<and>
      (\<forall>j. j < length (jobs st) \<and> running (jobs st ! j) \<longrightarrow>
         scheduledJobs st (jobTaskType (jobs st ! j)) = Some j))"

definition five_fields :: "string \<Rightarrow> bool" where
  "five_fields c = (length (filter (\<lambda>ch. ch = CHR '' '') c) = 4)"

definition scheduled_task :: "string \<Rightarrow> nat task_definition" where
  "scheduled_task c =
     \<lparr>handler = (\<lambda>p e d w. (HandlerResolves JNull, Suc w)),
      cronSchedule = Some c, parametersSchema = None, defaultParameters = None,
      timeoutMs = Some 300000, retryPolicy = None\<rparr>"

definition three_tasks :: "nat registry" where
  "three_tasks =
     [(''run-subscriptions'', scheduled_task ''0 0 * * *''),
      (''email-digest'', scheduled_task ''0 6 * * *''),
      (''cleanup'', scheduled_task ''0 2 * * 0'')]"

definition one_bad_cron :: "nat registry" where
  "one_bad_cron =
     [(''run-subscriptions'', scheduled_task ''0 0 * * *''),
      (''email-digest'', scheduled_task ''at six''),
      (''cleanup'', scheduled_task ''0 2 * * 0'')]"

text \<open>The table has a running job for task type \<open>t\<close> with cron expression \<open>c\<close>.\<close>

definition installed :: "scheduler \<Rightarrow> string \<Rightarrow> string \<Rightarrow> bool" where
  "installed st t c =
     (\<exists>j. scheduledJobs st t = Some j \<and> fires st j \<and> expression (jobs st ! j) = c)"

section \<open>Properties of the executor\<close>

lemma lookup_Own [simp]: "map_of defs t = Some td \<Longrightarrow> lookup defs t = Own td"
  by (simp add: lookup_def)

lemma extends_with_refl: "extends_with P s s"
  by (simp add: extends_with_def)

lemma extends_with_trans:
  "extends_with P s s1 \<Longrightarrow> extends_with P s1 s2 \<Longrightarrow> extends_with P s s2"
  by (auto simp: extends_with_def)

lemma extends_with_log: "P ev \<Longrightarrow> extends_with P s (log_event ev s)"
  by (simp add: extends_with_def log_event_def)

lemma attempt_extends:
  "attempt td t p e s = (s', r) \<Longrightarrow> extends_with (wait_ok rp) s s'"
  by (auto simp: attempt_def extends_with_def log_event_def Let_def
           split: sum.splits prod.splits race_outcome.splits)

lemma handleRetry_balance:
  "attemptsRemaining (handleRetry e rp err) + int (retryCount (handleRetry e rp err))
     = (case maxRetries rp of Some n \<Rightarrow> n | None \<Rightarrow> 0)"
  by (simp add: handleRetry_def)

lemma shouldRetry_pos:
  "shouldRetry rp err \<Longrightarrow> 0 < attemptsRemaining (handleRetry e rp err)"
  by (auto simp: shouldRetry_def handleRetry_def split: option.splits if_splits)

text \<open>
  One step of \<open>retryExecution\<close> with attempts left, in terms of the call of \<open>execute\<close>
  that it makes.
\<close>

lemma retryExecution_step:
  assumes "map_of defs t = Some td" and "retryPolicy td = Some rp"
    and "0 < attemptsRemaining rs"
    and "execute fuel defs t p
           (retryExecutionId (rs\<lparr>attemptsRemaining := attemptsRemaining rs - 1,
                                  retryCount := Suc (retryCount rs)\<rparr>))
           (log_event (RetryWait (Suc (retryCount rs)) (retryDelay rp (Suc (retryCount rs)))) s)
         = (s2, r)"
  shows "retryExecution (Suc fuel) defs t p rs s =
           (case r of
              None \<Rightarrow> (s2, None)
            | Some (Inr v) \<Rightarrow> (s2, Some (Inr v))
            | Some (Inl err) \<Rightarrow>
                retryExecution fuel defs t p
                  (rs\<lparr>attemptsRemaining := attemptsRemaining rs - 1,
                       retryCount := Suc (retryCount rs), lastError := err\<rparr>) s2)"
  using assms by (simp add: Let_def split: option.splits sum.splits)

lemma wait_ok_next:
  assumes "attemptsRemaining rs + int (retryCount rs) = (case maxRetries rp of Some n \<Rightarrow> n | None \<Rightarrow> 0)"
    and "0 < attemptsRemaining rs"
  shows "wait_ok rp (RetryWait (Suc (retryCount rs)) (retryDelay rp (Suc (retryCount rs))))"
  using assms by (auto simp: retryDelay_def or_default_def split: option.splits)

text \<open>
  Whatever the handler does and however far a run gets, the run only adds events to the
  trace, and every wait it adds is the capped exponential of its retry count.
\<close>

lemma run_extends:
  assumes "map_of defs t = Some td" and "retryPolicy td = Some rp"
  shows "extends_with (wait_ok rp) s (fst (execute fuel defs t p e s)) \<and>
         (attemptsRemaining rs + int (retryCount rs) = (case maxRetries rp of Some n \<Rightarrow> n | None \<Rightarrow> 0) \<longrightarrow>
          extends_with (wait_ok rp) s (fst (retryExecution fuel defs t p rs s)))"
proof (induction fuel arbitrary: e s rs)
  case 0
  show ?case by (simp add: extends_with_refl)
next
  case (Suc fuel)
  have ex: "extends_with (wait_ok rp) s (fst (execute (Suc fuel) defs t p e s))"
  proof -
    obtain s1 r where a: "attempt td t p e s = (s1, r)" by (cases "attempt td t p e s")
    have e1: "extends_with (wait_ok rp) s s1" using a by (rule attempt_extends)
    show ?thesis
    proof (cases r)
      case (Inr v)
      then show ?thesis using assms a e1 by simp
    next
      case (Inl err)
      show ?thesis
      proof (cases "shouldRetry rp err")
        case False
        then show ?thesis using assms a e1 Inl by simp
      next
        case True
        have "extends_with (wait_ok rp) s1 (fst (retryExecution fuel defs t p (handleRetry e rp err) s1))"
          using Suc.IH handleRetry_balance by blast
        then show ?thesis using assms a e1 Inl True by (simp add: extends_with_trans)
      qed
    qed
  qed
  have re: "extends_with (wait_ok rp) s (fst (retryExecution (Suc fuel) defs t p rs s))"
    if bal: "attemptsRemaining rs + int (retryCount rs) = (case maxRetries rp of Some n \<Rightarrow> n | None \<Rightarrow> 0)"
  proof (cases "attemptsRemaining rs \<le> 0")
    case True
    then show ?thesis by (simp add: extends_with_refl)
  next
    case False
    then have pos: "0 < attemptsRemaining rs" by simp
    define rs1 where "rs1 = rs\<lparr>attemptsRemaining := attemptsRemaining rs - 1, retryCount := Suc (retryCount rs)\<rparr>"
    define s1 where "s1 = log_event (RetryWait (Suc (retryCount rs)) (retryDelay rp (Suc (retryCount rs)))) s"
    have e1: "extends_with (wait_ok rp) s s1"
      unfolding s1_def using wait_ok_next [OF bal pos] by (rule extends_with_log)
    have bal1: "attemptsRemaining (rs1\<lparr>lastError := err\<rparr>) + int (retryCount (rs1\<lparr>lastError := err\<rparr>))
                  = (case maxRetries rp of Some n \<Rightarrow> n | None \<Rightarrow> 0)" for err
      using bal by (simp add: rs1_def)
    obtain s2 r where x: "execute fuel defs t p (retryExecutionId rs1) s1 = (s2, r)"
      by (cases "execute fuel defs t p (retryExecutionId rs1) s1")
    have e2: "extends_with (wait_ok rp) s1 s2"
      using Suc.IH [of s1 "retryExecutionId rs1"] x by simp
    have e02: "extends_with (wait_ok rp) s s2" using e1 e2 by (rule extends_with_trans)
    have unf: "retryExecution (Suc fuel) defs t p rs s =
        (case r of None \<Rightarrow> (s2, None) | Some (Inr v) \<Rightarrow> (s2, Some (Inr v))
         | Some (Inl err) \<Rightarrow> retryExecution fuel defs t p (rs1\<lparr>lastError := err\<rparr>) s2)"
      using retryExecution_step [OF assms pos] x unfolding rs1_def s1_def by simp
    show ?thesis
    proof (cases r)
      case None
      then show ?thesis using unf e02 by simp
    next
      case (Some y)
      show ?thesis
      proof (cases y)
        case (Inr v)
        then show ?thesis using unf e02 Some by simp
      next
        case (Inl err)
        have "extends_with (wait_ok rp) s2 (fst (retryExecution fuel defs t p (rs1\<lparr>lastError := err\<rparr>) s2))"
          using Suc.IH bal1 by blast
        then show ?thesis using unf e02 Some Inl by (simp add: extends_with_trans)
      qed
    qed
  qed
  show ?case using ex re by blast
qed

lemma retryExecution_first_wait:
  assumes "map_of defs t = Some td" and "retryPolicy td = Some rp"
    and bal: "attemptsRemaining rs + int (retryCount rs) = (case maxRetries rp of Some n \<Rightarrow> n | None \<Rightarrow> 0)"
    and pos: "0 < attemptsRemaining rs"
  shows "\<exists>rest. trace (fst (retryExecution (Suc fuel) defs t p rs s)) =
           trace s @ RetryWait (Suc (retryCount rs)) (retryDelay rp (Suc (retryCount rs))) # rest"
proof -
  define rs1 where "rs1 = rs\<lparr>attemptsRemaining := attemptsRemaining rs - 1, retryCount := Suc (retryCount rs)\<rparr>"
  define s1 where "s1 = log_event (RetryWait (Suc (retryCount rs)) (retryDelay rp (Suc (retryCount rs)))) s"
  obtain s2 r where x: "execute fuel defs t p (retryExecutionId rs1) s1 = (s2, r)"
    by (cases "execute fuel defs t p (retryExecutionId rs1) s1")
  have e2: "extends_with (wait_ok rp) s1 s2"
    using run_extends [OF assms(1,2), of s1 fuel p "retryExecutionId rs1"] x by simp
  have unf: "retryExecution (Suc fuel) defs t p rs s =
      (case r of None \<Rightarrow> (s2, None) | Some (Inr v) \<Rightarrow> (s2, Some (Inr v))
       | Some (Inl err) \<Rightarrow> retryExecution fuel defs t p (rs1\<lparr>lastError := err\<rparr>) s2)"
    using retryExecution_step [OF assms(1,2) pos] x unfolding rs1_def s1_def by simp
  have "extends_with (wait_ok rp) s1 (fst (retryExecution (Suc fuel) defs t p rs s))"
  proof (cases r)
    case None
    then show ?thesis using unf e2 by simp
  next
    case (Some y)
    show ?thesis
    proof (cases y)
      case (Inr v)
      then show ?thesis using unf e2 Some by simp
    next
      case (Inl err)
      have "attemptsRemaining (rs1\<lparr>lastError := err\<rparr>) + int (retryCount (rs1\<lparr>lastError := err\<rparr>))
              = (case maxRetries rp of Some n \<Rightarrow> n | None \<Rightarrow> 0)"
        using bal by (simp add: rs1_def)
      then have "extends_with (wait_ok rp) s2 (fst (retryExecution fuel defs t p (rs1\<lparr>lastError := err\<rparr>) s2))"
        using run_extends [OF assms(1,2)] by blast
      then show ?thesis using unf e2 Some Inl by (simp add: extends_with_trans)
    qed
  qed
  then show ?thesis
    by (auto simp: extends_with_def s1_def log_event_def)
qed

text \<open>
  A task whose every attempt fails with an error that its policy retries: no call of
  \<open>execute\<close> returns, with any fuel. Each failed attempt starts a chain of its own, whose
  first retry is again a call of \<open>execute\<close>.
\<close>

lemma retry_never_returns:
  assumes "map_of defs t = Some td" and "retryPolicy td = Some rp"
    and fails: "\<And>e s. \<exists>s1 err. attempt td t p e s = (s1, Inl err) \<and> shouldRetry rp err"
  shows "snd (execute fuel defs t p e s) = None \<and>
         (0 < attemptsRemaining rs \<longrightarrow> snd (retryExecution fuel defs t p rs s) = None)"
proof (induction fuel arbitrary: e s rs)
  case 0
  show ?case by simp
next
  case (Suc fuel)
  obtain s1 err where a: "attempt td t p e s = (s1, Inl err)" and sr: "shouldRetry rp err"
    using fails by blast
  have "snd (retryExecution fuel defs t p (handleRetry e rp err) s1) = None"
    using Suc.IH shouldRetry_pos [OF sr] by blast
  then have ex: "snd (execute (Suc fuel) defs t p e s) = None"
    using assms(1,2) a sr by simp
  have re: "snd (retryExecution (Suc fuel) defs t p rs s) = None" if pos: "0 < attemptsRemaining rs"
  proof -
    define rs1 where "rs1 = rs\<lparr>attemptsRemaining := attemptsRemaining rs - 1, retryCount := Suc (retryCount rs)\<rparr>"
    define s1 where "s1 = log_event (RetryWait (Suc (retryCount rs)) (retryDelay rp (Suc (retryCount rs)))) s"
    have "snd (execute fuel defs t p (retryExecutionId rs1) s1) = None"
      using Suc.IH by blast
    then obtain s2 where "execute fuel defs t p (retryExecutionId rs1) s1 = (s2, None)"
      by (cases "execute fuel defs t p (retryExecutionId rs1) s1") simp
    then show ?thesis
      using retryExecution_step [OF assms(1,2) pos] unfolding rs1_def s1_def by simp
  qed
  show ?case using ex re by blast
qed

lemma always_failing_attempt:
  "\<exists>s1 err. attempt always_failing ''job'' Map.empty e s = (s1, Inl err) \<and> shouldRetry (retry_all 3) err"
  by (simp add: attempt_def always_failing_def validateParameters_def shouldRetry_def
        retry_all_def Let_def)

text \<open>
  C1 (the code departs from the claim). The claim: under a policy with
  \<open>maxRetries = n\<close> and a handler that fails retryably on every attempt, \<open>execute\<close> makes
  at most \<open>n\<close> retries and then fails with the last error. The code: with
  \<open>maxRetries = 3\<close> and a handler that always rejects, \<open>execute\<close> does not return with any
  amount of fuel; and with \<open>maxRetries = 1\<close> and a handler that rejects twice and then
  resolves, \<open>execute\<close> makes two retries, each announced as retry 1 after a delay of 1000,
  and returns the handler's result.
\<close>

theorem retries_not_bounded_by_maxRetries:
  "(\<forall>fuel. snd (execute fuel [(''job'', always_failing)] ''job'' Map.empty ''exec-1'' fresh) = None) \<and>
   execute 5 [(''job'', fails_twice)] ''job'' Map.empty ''exec-1'' fresh =
     (\<lparr>world = 3,
       trace = [Invoke ''job'' ''exec-1'' 300000, RetryWait 1 1000,
                Invoke ''job'' ''retry-1-exec-1'' 300000, RetryWait 1 1000,
                Invoke ''job'' ''retry-1-retry-1-exec-1'' 300000]\<rparr>,
      Some (Inr (JNum 7)))"
proof
  have "snd (execute fuel [(''job'', always_failing)] ''job'' Map.empty ''exec-1'' fresh) = None" for fuel
    using retry_never_returns [of "[(''job'', always_failing)]" "''job''" always_failing "retry_all 3" Map.empty]
      always_failing_attempt
    by (simp add: always_failing_def)
  then show "\<forall>fuel. snd (execute fuel [(''job'', always_failing)] ''job'' Map.empty ''exec-1'' fresh) = None"
    by blast
next
  show "execute 5 [(''job'', fails_twice)] ''job'' Map.empty ''exec-1'' fresh =
     (\<lparr>world = 3,
       trace = [Invoke ''job'' ''exec-1'' 300000, RetryWait 1 1000,
                Invoke ''job'' ''retry-1-exec-1'' 300000, RetryWait 1 1000,
                Invoke ''job'' ''retry-1-retry-1-exec-1'' 300000]\<rparr>,
      Some (Inr (JNum 7)))"
    by (simp add: eval_nat_numeral fails_twice_def fresh_def retry_all_def attempt_def
          validateParameters_def shouldRetry_def handleRetry_def retryDelay_def
          retryExecutionId_def log_event_def or_default_def dec.simps digit_def Let_def
          lookup_def timer_delay_def)
qed

text \<open>
  In every run of \<open>execute\<close> for a task with a retry policy, whatever the handler does,
  each wait before a retry has the delay \<open>min (baseDelayMs * 2 ^ (k - 1)) maxDelayMs\<close>,
  where \<open>k\<close>, counted from 1 and at most \<open>maxRetries\<close>, is the \<open>retryCount\<close> of the retry
  state that asks for the retry, \<open>baseDelayMs\<close> is 1000 and \<open>maxDelayMs\<close> is 30000 when
  unset (\<open>||\<close> takes 0 for unset too).
\<close>

theorem retry_delay_per_retry_state:
  assumes "map_of defs t = Some td" and "retryPolicy td = Some rp"
  shows "\<exists>new. trace (fst (execute fuel defs t p e s)) = trace s @ new \<and>
           (\<forall>k d. RetryWait k d \<in> set new \<longrightarrow>
              1 \<le> k \<and> int k \<le> (case maxRetries rp of Some n \<Rightarrow> n | None \<Rightarrow> 0) \<and>
              d = min ((case baseDelayMs rp of None \<Rightarrow> 1000 | Some b \<Rightarrow> if b = 0 then 1000 else b)
                         * 2 ^ (k - 1))
                      (case maxDelayMs rp of None \<Rightarrow> 30000 | Some c \<Rightarrow> if c = 0 then 30000 else c))"
proof -
  have "extends_with (wait_ok rp) s (fst (execute fuel defs t p e s))"
    using run_extends [OF assms] by blast
  then obtain new where n: "trace (fst (execute fuel defs t p e s)) = trace s @ new"
    and ok: "list_all (wait_ok rp) new"
    by (auto simp: extends_with_def)
  have "wait_ok rp (RetryWait k d)" if "RetryWait k d \<in> set new" for k d
    using ok that unfolding list_all_iff by blast
  then show ?thesis using n by auto
qed

text \<open>
  A run in which one retry state makes all its retries: the policy is \<open>maxRetries = 3\<close>,
  \<open>baseDelayMs = 1000\<close>, \<open>maxDelayMs = 30000\<close>; the first failure is retryable and the
  failures of the retries are not, so \<open>execute\<close> rethrows them to \<open>retryExecution\<close>, which
  waits 1000, 2000 and 4000 and gives up with the last error.
\<close>

lemma backoff_run:
  "execute 10 [(''job'', timeout_then_broken)] ''job'' Map.empty ''exec-1'' fresh =
     (\<lparr>world = 4,
       trace = [Invoke ''job'' ''exec-1'' 300000, RetryWait 1 1000,
                Invoke ''job'' ''retry-1-exec-1'' 300000, RetryWait 2 2000,
                Invoke ''job'' ''retry-2-exec-1'' 300000, RetryWait 3 4000,
                Invoke ''job'' ''retry-3-exec-1'' 300000]\<rparr>,
      Some (Inl (HandlerError ''boom'')))"
  by (simp add: eval_nat_numeral timeout_then_broken_def fresh_def retry_timeouts_def attempt_def
        validateParameters_def shouldRetry_def handleRetry_def retryDelay_def
        retryExecutionId_def log_event_def or_default_def dec.simps digit_def Let_def
        lookup_def timer_delay_def sublist_code)

theorem retry_delay_per_retry_state_example:
  "map_of [(''job'', timeout_then_broken)] ''job'' = Some timeout_then_broken \<and>
   retryPolicy timeout_then_broken = Some (retry_timeouts 3) \<and>
   (\<exists>new. trace (fst (execute 10 [(''job'', timeout_then_broken)] ''job'' Map.empty ''exec-1'' fresh))
            = trace fresh @ new \<and>
          (\<forall>k d. RetryWait k d \<in> set new \<longrightarrow>
             1 \<le> k \<and> int k \<le> 3 \<and> d = min (1000 * 2 ^ (k - 1)) 30000)) \<and>
   map (\<lambda>ev. case ev of RetryWait k d \<Rightarrow> d | Invoke a b c \<Rightarrow> 0)
     (filter (\<lambda>ev. case ev of RetryWait k d \<Rightarrow> True | Invoke a b c \<Rightarrow> False)
        (trace (fst (execute 10 [(''job'', timeout_then_broken)] ''job'' Map.empty ''exec-1'' fresh))))
     = [1000, 2000, 4000]"
proof -
  have h1: "map_of [(''job'', timeout_then_broken)] ''job'' = Some timeout_then_broken" by simp
  have h2: "retryPolicy timeout_then_broken = Some (retry_timeouts 3)"
    by (simp add: timeout_then_broken_def)
  have c: "\<exists>new. trace (fst (execute 10 [(''job'', timeout_then_broken)] ''job'' Map.empty ''exec-1'' fresh))
            = trace fresh @ new \<and>
          (\<forall>k d. RetryWait k d \<in> set new \<longrightarrow>
             1 \<le> k \<and> int k \<le> 3 \<and> d = min (1000 * 2 ^ (k - 1)) 30000)"
    using retry_delay_per_retry_state
            [where fuel = 10 and p = Map.empty and e = "''exec-1''" and s = fresh, OF h1 h2]
    by (simp add: retry_timeouts_def)
  have r: "map (\<lambda>ev. case ev of RetryWait k d \<Rightarrow> d | Invoke a b c \<Rightarrow> 0)
     (filter (\<lambda>ev. case ev of RetryWait k d \<Rightarrow> True | Invoke a b c \<Rightarrow> False)
        (trace (fst (execute 10 [(''job'', timeout_then_broken)] ''job'' Map.empty ''exec-1'' fresh))))
     = [1000, 2000, 4000]"
    by (simp add: backoff_run)
  show ?thesis using h1 h2 c r by blast
qed

text \<open>
  C6 (the code departs from the claim). The claim: the waits before the successive
  retries are \<open>min (baseDelayMs * 2 ^ (k - 1)) maxDelayMs\<close> for \<open>k = 1, 2, 3\<close>, that is 1000,
  2000 and 4000 under \<open>baseDelayMs = 1000\<close>, \<open>maxDelayMs = 30000\<close>, \<open>maxRetries = 3\<close>. The
  code: under this policy a handler that rejects three times with a retryable error and
  then resolves is retried three times, after waits of 1000, 1000 and 1000, each
  announced as retry 1. The delay is computed from the retry count of a retry state, and
  a retry that fails retryably starts a new retry state inside its \<open>execute\<close>.
\<close>

theorem backoff_restarts_after_retryable_failure:
  "execute 7 [(''job'', fails_thrice)] ''job'' Map.empty ''exec-1'' fresh =
     (\<lparr>world = 4,
       trace = [Invoke ''job'' ''exec-1'' 300000, RetryWait 1 1000,
                Invoke ''job'' ''retry-1-exec-1'' 300000, RetryWait 1 1000,
                Invoke ''job'' ''retry-1-retry-1-exec-1'' 300000, RetryWait 1 1000,
                Invoke ''job'' ''retry-1-retry-1-retry-1-exec-1'' 300000]\<rparr>,
      Some (Inr (JNum 7)))"
  by (simp add: eval_nat_numeral fails_thrice_def fresh_def retry_all_def attempt_def
        validateParameters_def shouldRetry_def handleRetry_def retryDelay_def
        retryExecutionId_def log_event_def or_default_def dec.simps digit_def Let_def
        lookup_def timer_delay_def)

text \<open>
  C4 as the claim states it fails: a definition whose schema rejects the parameters and
  whose policy has \<open>maxRetries = 3\<close> and no \<open>retryableErrors\<close> goes into the retry loop; with
  fuel for four calls two retries have been waited for and nothing has been returned.
\<close>

theorem schema_mismatch_retried_counterexample:
  "execute 4 [(''job'', needs_batchSize (Some (retry_all 3)))] ''job'' Map.empty ''exec-1'' fresh =
     (\<lparr>world = 0, trace = [RetryWait 1 1000, RetryWait 1 1000]\<rparr>, None)"
  by (simp add: eval_nat_numeral needs_batchSize_def fresh_def retry_all_def attempt_def
        validateParameters_def shouldRetry_def handleRetry_def retryDelay_def
        retryExecutionId_def log_event_def or_default_def dec.simps digit_def Let_def
        lookup_def timer_delay_def)

lemma mismatch_attempt:
  assumes "parametersSchema td = Some (ZodSchema parse)" and "parse p = Some m"
  shows "attempt td t p e s = (s, Inl (InvalidParameters m))"
  using assms by (simp add: attempt_def validateParameters_def)

text \<open>
  C4, amended. For a definition with a zod schema that rejects the parameters,
  \<open>execute\<close> fails with \<open>InvalidParameters\<close> at once, with the handler not invoked and
  nothing waited for, when the definition has no retry policy or \<open>shouldRetry\<close> rejects
  the error (\<open>maxRetries\<close> unset or not positive, or \<open>retryableErrors\<close> set with no entry
  matching the message); when \<open>shouldRetry\<close> accepts it, as it does whenever
  \<open>maxRetries\<close> is positive and \<open>retryableErrors\<close> is unset, \<open>execute\<close> goes into the retry
  loop and waits for retry 1.
\<close>

theorem schema_mismatch_retry_decision:
  assumes "map_of defs t = Some td" and "parametersSchema td = Some (ZodSchema parse)"
    and "parse p = Some m"
  shows "(case retryPolicy td of
            None \<Rightarrow> execute (Suc fuel) defs t p e s = (s, Some (Inl (InvalidParameters m)))
          | Some rp \<Rightarrow>
              if shouldRetry rp (InvalidParameters m)
              then \<exists>rest. trace (fst (execute (Suc (Suc fuel)) defs t p e s))
                            = trace s @ RetryWait 1 (retryDelay rp 1) # rest
              else execute (Suc fuel) defs t p e s = (s, Some (Inl (InvalidParameters m))))"
proof (cases "retryPolicy td")
  case None
  then show ?thesis using assms(1) mismatch_attempt [OF assms(2,3)] by simp
next
  case (Some rp)
  show ?thesis
  proof (cases "shouldRetry rp (InvalidParameters m)")
    case False
    then show ?thesis using Some assms(1) mismatch_attempt [OF assms(2,3)] by simp
  next
    case True
    have ex: "execute (Suc (Suc fuel)) defs t p e s =
                retryExecution (Suc fuel) defs t p (handleRetry e rp (InvalidParameters m)) s"
      using Some True assms(1) mismatch_attempt [OF assms(2,3)] by simp
    have "\<exists>rest. trace (fst (retryExecution (Suc fuel) defs t p (handleRetry e rp (InvalidParameters m)) s)) =
            trace s @ RetryWait (Suc (retryCount (handleRetry e rp (InvalidParameters m))))
                        (retryDelay rp (Suc (retryCount (handleRetry e rp (InvalidParameters m))))) # rest"
      using retryExecution_first_wait [OF assms(1) Some handleRetry_balance shouldRetry_pos [OF True]] .
    then show ?thesis using Some True ex by (simp add: handleRetry_def)
  qed
qed

theorem schema_mismatch_retry_decision_witness:
  "execute (Suc 0) [(''job'', needs_batchSize None)] ''job'' Map.empty ''exec-1'' fresh =
     (fresh, Some (Inl (InvalidParameters ''Required''))) \<and>
   execute (Suc 0) [(''job'', needs_batchSize (Some (retry_timeouts 3)))] ''job'' Map.empty
       ''exec-1'' fresh =
     (fresh, Some (Inl (InvalidParameters ''Required''))) \<and>
   (\<exists>rest. trace (fst (execute (Suc (Suc 0)) [(''job'', needs_batchSize (Some (retry_all 3)))] ''job''
                          Map.empty ''exec-1'' fresh))
           = trace fresh @ RetryWait 1 1000 # rest)"
proof -
  have sc: "parametersSchema (needs_batchSize rp) =
             Some (ZodSchema (\<lambda>p. if p ''batchSize'' = None then Some ''Required'' else None))" for rp
    by (simp add: needs_batchSize_def)
  have m: "(\<lambda>p. if p ''batchSize'' = None then Some ''Required'' else None) Map.empty = Some ''Required''"
    by simp
  have l: "map_of [(''job'', needs_batchSize rp)] ''job'' = Some (needs_batchSize rp)" for rp
    by simp
  have pol: "retryPolicy (needs_batchSize rp) = rp" for rp
    by (simp add: needs_batchSize_def)
  have no: "shouldRetry (retry_timeouts 3) (InvalidParameters ''Required'') = False"
    by (simp add: shouldRetry_def retry_timeouts_def sublist_code)
  have yes: "shouldRetry (retry_all 3) (InvalidParameters ''Required'') = True"
    by (simp add: shouldRetry_def retry_all_def)
  have dl: "retryDelay (retry_all 3) 1 = 1000"
    by (simp add: retryDelay_def retry_all_def or_default_def)
  have a: "execute (Suc 0) [(''job'', needs_batchSize None)] ''job'' Map.empty ''exec-1'' fresh =
     (fresh, Some (Inl (InvalidParameters ''Required'')))"
    using schema_mismatch_retry_decision
            [where fuel = 0 and e = "''exec-1''" and s = fresh, OF l [of None] sc [of None] m]
    by (simp only: pol option.case)
  have b: "execute (Suc 0) [(''job'', needs_batchSize (Some (retry_timeouts 3)))] ''job'' Map.empty
             ''exec-1'' fresh =
     (fresh, Some (Inl (InvalidParameters ''Required'')))"
    using schema_mismatch_retry_decision
            [where fuel = 0 and e = "''exec-1''" and s = fresh,
             OF l [of "Some (retry_timeouts 3)"] sc [of "Some (retry_timeouts 3)"] m]
    by (simp only: pol option.case no if_False)
  have c: "\<exists>rest. trace (fst (execute (Suc (Suc 0)) [(''job'', needs_batchSize (Some (retry_all 3)))]
                                ''job'' Map.empty ''exec-1'' fresh))
           = trace fresh @ RetryWait 1 1000 # rest"
    using schema_mismatch_retry_decision
            [where fuel = 0 and e = "''exec-1''" and s = fresh,
             OF l [of "Some (retry_all 3)"] sc [of "Some (retry_all 3)"] m]
    by (simp only: pol option.case yes if_True dl)
  show ?thesis using a b c by blast
qed

lemma execute_after_attempt:
  assumes "map_of defs t = Some td" and "attempt td t p e s = (s1, r)"
  shows "\<exists>new. trace (fst (execute (Suc fuel) defs t p e s)) = trace s1 @ new"
proof (cases "retryPolicy td")
  case None
  then show ?thesis using assms by (cases r) simp_all
next
  case (Some rp)
  show ?thesis
  proof (cases r)
    case (Inr v)
    then show ?thesis using assms Some by simp
  next
    case (Inl err)
    show ?thesis
    proof (cases "shouldRetry rp err")
      case False
      then show ?thesis using assms Some Inl by simp
    next
      case True
      have "extends_with (wait_ok rp) s1 (fst (retryExecution fuel defs t p (handleRetry e rp err) s1))"
        using run_extends [OF assms(1) Some] handleRetry_balance by blast
      then show ?thesis using assms Some Inl True by (auto simp: extends_with_def)
    qed
  qed
qed

subsection \<open>The first attempt\<close>

text \<open>
  What the \<open>try\<close> block does once the parameters have passed validation: the handler is
  invoked and raced against the timer, its effects stand, and the race's answer is the
  attempt's.
\<close>

lemma attempt_outcome:
  assumes "validateParameters td p = Inr True"
    and "handler td ((case defaultParameters td of None \<Rightarrow> Map.empty | Some d \<Rightarrow> d) ++ p) e
           (timer_delay (or_default (timeoutMs td) 300000)) (world s) = (out, w)"
  shows "attempt td t p e s =
           (s\<lparr>trace := trace s @ [Invoke t e (timer_delay (or_default (timeoutMs td) 300000))],
              world := w\<rparr>,
            case out of
              HandlerResolves v \<Rightarrow> Inr v
            | HandlerRejects m \<Rightarrow> Inl (HandlerError m)
            | TimerFires late \<Rightarrow> Inl (ExecutionTimeout t (or_default (timeoutMs td) 300000)))"
  using assms
  by (cases out) (simp_all add: attempt_def log_event_def Let_def)

text \<open>What the \<open>catch\<close> block of \<open>execute\<close> does with the error of a failed attempt.\<close>

lemma first_failure:
  assumes reg: "map_of defs t = Some td" and a: "attempt td t p e s = (s', Inl err)"
  shows "(case retryPolicy td of
            None \<Rightarrow> execute (Suc fuel) defs t p e s = (s', Some (Inl err))
          | Some rp \<Rightarrow>
              if shouldRetry rp err
              then \<exists>rest. trace (fst (execute (Suc (Suc fuel)) defs t p e s))
                            = trace s' @ RetryWait 1 (retryDelay rp 1) # rest
              else execute (Suc fuel) defs t p e s = (s', Some (Inl err)))"
proof (cases "retryPolicy td")
  case None
  then show ?thesis using reg a by simp
next
  case (Some rp)
  show ?thesis
  proof (cases "shouldRetry rp err")
    case False
    then show ?thesis using Some reg a by simp
  next
    case True
    have ex: "execute (Suc (Suc fuel)) defs t p e s =
                retryExecution (Suc fuel) defs t p (handleRetry e rp err) s'"
      using Some True reg a by simp
    have "\<exists>rest. trace (fst (retryExecution (Suc fuel) defs t p (handleRetry e rp err) s')) =
            trace s' @ RetryWait (Suc (retryCount (handleRetry e rp err)))
                         (retryDelay rp (Suc (retryCount (handleRetry e rp err)))) # rest"
      using retryExecution_first_wait [OF reg Some handleRetry_balance shouldRetry_pos [OF True]] .
    then show ?thesis using Some True ex by (simp add: handleRetry_def)
  qed
qed


text \<open>
  C5 as the claim states it fails: under a policy with \<open>maxRetries = 3\<close> and no
  \<open>retryableErrors\<close>, a handler that loses the race against the timer at its first
  invocation is retried, and \<open>execute\<close> returns the result of the second invocation
  instead of failing with the timeout.
\<close>

theorem timeout_retried_counterexample:
  "execute 3 [(''job'', times_out_once (Some (retry_all 3)))] ''job'' Map.empty ''exec-1'' fresh =
     (\<lparr>world = 2,
       trace = [Invoke ''job'' ''exec-1'' 300000, RetryWait 1 1000,
                Invoke ''job'' ''retry-1-exec-1'' 300000]\<rparr>,
      Some (Inr (JNum 7)))"
  by (simp add: eval_nat_numeral times_out_once_def fresh_def retry_all_def attempt_def
        validateParameters_def shouldRetry_def handleRetry_def retryDelay_def
        retryExecutionId_def log_event_def or_default_def dec.simps digit_def Let_def
        lookup_def timer_delay_def)

text \<open>
  C5, amended. For a registered task and parameters that pass validation, the answer of
  the race is the outcome of the attempt: the handler's result, the handler's error, or,
  when the timer fires first, \<open>ExecutionTimeout\<close>, whatever the handler does later, and
  with the handler's effects on the world in place. When the timer fires first,
  \<open>execute\<close> fails with that \<open>ExecutionTimeout\<close> if the definition has no retry policy or
  \<open>shouldRetry\<close> rejects the error, and waits for retry 1 if \<open>shouldRetry\<close> accepts it.
\<close>

theorem timer_first_is_timeout_unless_retried:
  assumes "map_of defs t = Some td" and "validateParameters td p = Inr True"
    and "handler td ((case defaultParameters td of None \<Rightarrow> Map.empty | Some d \<Rightarrow> d) ++ p) e
           (timer_delay (or_default (timeoutMs td) 300000)) (world s) = (out, w)"
    and "s' = s\<lparr>trace := trace s @ [Invoke t e (timer_delay (or_default (timeoutMs td) 300000))],
                  world := w\<rparr>"
  shows "attempt td t p e s =
           (s', case out of
                  HandlerResolves v \<Rightarrow> Inr v
                | HandlerRejects m \<Rightarrow> Inl (HandlerError m)
                | TimerFires late \<Rightarrow> Inl (ExecutionTimeout t (or_default (timeoutMs td) 300000))) \<and>
         (\<forall>late. out = TimerFires late \<longrightarrow>
            (case retryPolicy td of
               None \<Rightarrow> execute (Suc fuel) defs t p e s
                         = (s', Some (Inl (ExecutionTimeout t (or_default (timeoutMs td) 300000))))
             | Some rp \<Rightarrow>
                 if shouldRetry rp (ExecutionTimeout t (or_default (timeoutMs td) 300000))
                 then \<exists>rest. trace (fst (execute (Suc (Suc fuel)) defs t p e s))
                               = trace s' @ RetryWait 1 (retryDelay rp 1) # rest
                 else execute (Suc fuel) defs t p e s
                        = (s', Some (Inl (ExecutionTimeout t (or_default (timeoutMs td) 300000))))))"
proof
  show a: "attempt td t p e s =
           (s', case out of
                  HandlerResolves v \<Rightarrow> Inr v
                | HandlerRejects m \<Rightarrow> Inl (HandlerError m)
                | TimerFires late \<Rightarrow> Inl (ExecutionTimeout t (or_default (timeoutMs td) 300000)))"
    using attempt_outcome [OF assms(2,3)] assms(4) by simp
  show "\<forall>late. out = TimerFires late \<longrightarrow>
            (case retryPolicy td of
               None \<Rightarrow> execute (Suc fuel) defs t p e s
                         = (s', Some (Inl (ExecutionTimeout t (or_default (timeoutMs td) 300000))))
             | Some rp \<Rightarrow>
                 if shouldRetry rp (ExecutionTimeout t (or_default (timeoutMs td) 300000))
                 then \<exists>rest. trace (fst (execute (Suc (Suc fuel)) defs t p e s))
                               = trace s' @ RetryWait 1 (retryDelay rp 1) # rest
                 else execute (Suc fuel) defs t p e s
                        = (s', Some (Inl (ExecutionTimeout t (or_default (timeoutMs td) 300000)))))"
  proof (intro allI impI)
    fix late
    assume "out = TimerFires late"
    then have "attempt td t p e s
                 = (s', Inl (ExecutionTimeout t (or_default (timeoutMs td) 300000)))"
      using a by simp
    then show "(case retryPolicy td of
               None \<Rightarrow> execute (Suc fuel) defs t p e s
                         = (s', Some (Inl (ExecutionTimeout t (or_default (timeoutMs td) 300000))))
             | Some rp \<Rightarrow>
                 if shouldRetry rp (ExecutionTimeout t (or_default (timeoutMs td) 300000))
                 then \<exists>rest. trace (fst (execute (Suc (Suc fuel)) defs t p e s))
                               = trace s' @ RetryWait 1 (retryDelay rp 1) # rest
                 else execute (Suc fuel) defs t p e s
                        = (s', Some (Inl (ExecutionTimeout t (or_default (timeoutMs td) 300000)))))"
      by (rule first_failure [OF assms(1)])
  qed
qed

theorem timer_first_is_timeout_unless_retried_witness:
  "execute (Suc 0) [(''job'', hanging)] ''job'' Map.empty ''exec-1'' fresh
     = (fresh\<lparr>trace := trace fresh @ [Invoke ''job'' ''exec-1'' 300000], world := Suc 0\<rparr>,
        Some (Inl (ExecutionTimeout ''job'' 300000))) \<and>
   execute (Suc 0) [(''job'', times_out_once (Some (retry_timeouts 3)))] ''job'' Map.empty
       ''exec-1'' fresh
     = (fresh\<lparr>trace := trace fresh @ [Invoke ''job'' ''exec-1'' 300000], world := Suc 0\<rparr>,
        Some (Inl (ExecutionTimeout ''job'' 300000))) \<and>
   (\<exists>rest. trace (fst (execute (Suc (Suc 0)) [(''job'', times_out_once (Some (retry_all 3)))]
                          ''job'' Map.empty ''exec-1'' fresh))
           = trace (fresh\<lparr>trace := trace fresh @ [Invoke ''job'' ''exec-1'' 300000],
                          world := Suc 0\<rparr>)
               @ RetryWait 1 1000 # rest)"
proof -
  have l: "map_of [(''job'', td)] ''job'' = Some td" for td :: "nat task_definition"
    by simp
  have v1: "validateParameters hanging Map.empty = Inr True"
    by (simp add: validateParameters_def hanging_def)
  have v2: "validateParameters (times_out_once rp) Map.empty = Inr True" for rp
    by (simp add: validateParameters_def times_out_once_def)
  have d1: "or_default (timeoutMs hanging) 300000 = 300000"
    by (simp add: or_default_def hanging_def)
  have d2: "or_default (timeoutMs (times_out_once rp)) 300000 = 300000" for rp
    by (simp add: or_default_def times_out_once_def)
  have td: "timer_delay 300000 = 300000" by (simp add: timer_delay_def)
  have r1: "handler hanging
              ((case defaultParameters hanging of None \<Rightarrow> Map.empty | Some d \<Rightarrow> d) ++ Map.empty)
              ''exec-1'' (timer_delay (or_default (timeoutMs hanging) 300000)) (world fresh)
            = (TimerFires NeverSettles, Suc 0)"
    by (simp add: hanging_def fresh_def)
  have r2: "handler (times_out_once rp)
              ((case defaultParameters (times_out_once rp) of None \<Rightarrow> Map.empty | Some d \<Rightarrow> d)
                 ++ Map.empty)
              ''exec-1'' (timer_delay (or_default (timeoutMs (times_out_once rp)) 300000))
              (world fresh)
            = (TimerFires (ResolvesLater (JNum 1)), Suc 0)" for rp
    by (simp add: times_out_once_def fresh_def)
  have p1: "retryPolicy hanging = None" by (simp add: hanging_def)
  have p2: "retryPolicy (times_out_once rp) = rp" for rp by (simp add: times_out_once_def)
  have no: "shouldRetry (retry_timeouts 3) (ExecutionTimeout ''job'' 300000) = False"
    by (simp add: shouldRetry_def retry_timeouts_def show_int_def dec.simps digit_def
          sublist_code)
  have yes: "shouldRetry (retry_all 3) (ExecutionTimeout ''job'' 300000) = True"
    by (simp add: shouldRetry_def retry_all_def)
  have dl: "retryDelay (retry_all 3) 1 = 1000"
    by (simp add: retryDelay_def retry_all_def or_default_def)
  have a: "execute (Suc 0) [(''job'', hanging)] ''job'' Map.empty ''exec-1'' fresh
     = (fresh\<lparr>trace := trace fresh @ [Invoke ''job'' ''exec-1'' 300000], world := Suc 0\<rparr>,
        Some (Inl (ExecutionTimeout ''job'' 300000)))"
    using timer_first_is_timeout_unless_retried
            [where fuel = 0, OF l v1 r1 refl, THEN conjunct2, THEN spec, THEN mp, OF refl]
    by (simp only: p1 option.case d1 td)
  have b: "execute (Suc 0) [(''job'', times_out_once (Some (retry_timeouts 3)))] ''job'' Map.empty
       ''exec-1'' fresh
     = (fresh\<lparr>trace := trace fresh @ [Invoke ''job'' ''exec-1'' 300000], world := Suc 0\<rparr>,
        Some (Inl (ExecutionTimeout ''job'' 300000)))"
    using timer_first_is_timeout_unless_retried
            [where fuel = 0, OF l v2 r2 refl, THEN conjunct2, THEN spec, THEN mp, OF refl,
             of "Some (retry_timeouts 3)"]
    by (simp only: p2 option.case d2 td no if_False)
  have c: "\<exists>rest. trace (fst (execute (Suc (Suc 0)) [(''job'', times_out_once (Some (retry_all 3)))]
                          ''job'' Map.empty ''exec-1'' fresh))
           = trace (fresh\<lparr>trace := trace fresh @ [Invoke ''job'' ''exec-1'' 300000],
                          world := Suc 0\<rparr>)
               @ RetryWait 1 1000 # rest"
    using timer_first_is_timeout_unless_retried
            [where fuel = 0, OF l v2 r2 refl, THEN conjunct2, THEN spec, THEN mp, OF refl,
             of "Some (retry_all 3)"]
    by (simp only: p2 option.case d2 td yes if_True dl)
  show ?thesis using a b c by blast
qed




section \<open>Properties of on-request execution and of the history store\<close>

text \<open>
  C2 as the claim states it fails: on an empty store, \<open>executeTask\<close> for a task type that
  is not registered fails with the unknown-type error and leaves one entry in the store,
  the record of that failure. For \<open>toString\<close>, which is not registered either, the
  error is not the unknown-type error but the \<open>TypeError\<close> of calling a handler that is
  \<open>undefined\<close>, and it is recorded too.
\<close>

theorem unknown_type_writes_history_counterexample:
  "store idle = [] \<and>
   snd (executeTask 1 [] clock ''missing-type'' Map.empty idle)
     = Some (Inl (UnknownTaskType ''missing-type'')) \<and>
   map (\<lambda>h. (executionId h, taskType h, success h, error h))
       (store (fst (executeTask 1 [] clock ''missing-type'' Map.empty idle)))
     = [(''exec-1000-k3x9q2a'', ''missing-type'', False, Some ''Unknown task type: missing-type'')] \<and>
   snd (executeTask 1 [] clock ''toString'' Map.empty idle)
     = Some (Inl (TypeError ''taskDefinition.handler is not a function'')) \<and>
   map (\<lambda>h. (executionId h, taskType h, success h, error h))
       (store (fst (executeTask 1 [] clock ''toString'' Map.empty idle)))
     = [(''exec-1000-k3x9q2a'', ''toString'', False,
         Some ''taskDefinition.handler is not a function'')]"
  by (simp add: executeTask_def idle_def clock_def fresh_def saveTaskHistory_def Let_def
        dec.simps digit_def execution_record.defs history_entry.defs lookup_def
        object_prototype_names_def)

text \<open>
  C2, amended. For a task type that is neither registered nor one of the names that every
  object inherits, and any parameters, \<open>executeTask\<close> fails with the unknown-type error,
  the handler of no task is invoked, and the store is the one before the call with one
  failure record pushed, cut to its last 1000 entries: a record with \<open>success = false\<close>,
  no result and the error's message.
\<close>

theorem unknown_type_is_recorded:
  assumes "map_of defs ttype = None" and "ttype \<notin> set object_prototype_names"
  shows "\<exists>sv' entry.
           executeTask (Suc fuel) defs rd ttype args sv = (sv', Some (Inl (UnknownTaskType ttype))) \<and>
           engine sv' = engine sv \<and>
           taskType entry = ttype \<and> success entry = False \<and> result entry = JNull \<and>
           error entry = Some (''Unknown task type: '' @ ttype) \<and>
           store sv' = (if length (store sv) \<ge> 1000
                        then drop (length (store sv) - 999) (store sv) @ [entry]
                        else store sv @ [entry])"
  using assms
  by (simp add: executeTask_def saveTaskHistory_def Let_def execution_record.defs
        history_entry.defs lookup_def)

theorem unknown_type_is_recorded_witness:
  "map_of ([] :: nat registry) ''missing-type'' = None \<and>
   ''missing-type'' \<notin> set object_prototype_names \<and>
   (\<exists>sv' entry.
      executeTask (Suc 0) [] clock ''missing-type'' Map.empty idle
        = (sv', Some (Inl (UnknownTaskType ''missing-type''))) \<and>
      engine sv' = engine idle \<and>
      taskType entry = ''missing-type'' \<and> success entry = False \<and> result entry = JNull \<and>
      error entry = Some (''Unknown task type: '' @ ''missing-type'') \<and>
      store sv' = (if length (store idle) \<ge> 1000
                   then drop (length (store idle) - 999) (store idle) @ [entry]
                   else store idle @ [entry]))"
proof -
  have h: "map_of ([] :: nat registry) ''missing-type'' = None" by simp
  have n: "''missing-type'' \<notin> set object_prototype_names"
    by (simp add: object_prototype_names_def)
  show ?thesis
    using h n unknown_type_is_recorded
                [where fuel = 0 and rd = clock and args = Map.empty and sv = idle, OF h n]
    by blast
qed

text \<open>
  For an inherited name that is not registered the unknown-type check lets the call
  through, and what is recorded is the \<open>TypeError\<close>.
\<close>

lemma inherited_name_is_recorded:
  assumes "map_of defs ttype = None" and "ttype \<in> set object_prototype_names"
  shows "\<exists>sv' entry.
           executeTask (Suc fuel) defs rd ttype args sv
             = (sv', Some (Inl (TypeError ''taskDefinition.handler is not a function''))) \<and>
           engine sv' = engine sv \<and>
           taskType entry = ttype \<and> success entry = False \<and>
           error entry = Some ''taskDefinition.handler is not a function'' \<and>
           store sv' = (if length (store sv) \<ge> 1000
                        then drop (length (store sv) - 999) (store sv) @ [entry]
                        else store sv @ [entry])"
  using assms
  by (simp add: executeTask_def saveTaskHistory_def Let_def execution_record.defs
        history_entry.defs lookup_def)

text \<open>
  Appending: the store after \<open>saveTaskHistory\<close> is the end of the old store with the new
  entry pushed, and holds at most 1000 entries when the old one did.
\<close>

lemma saveTaskHistory_bounded:
  "length arr \<le> 1000 \<Longrightarrow> length (snd (saveTaskHistory now rnd stamp h arr)) \<le> 1000"
  by (simp add: saveTaskHistory_def Let_def)

lemma saveTaskHistory_keeps_newest:
  "\<exists>k. snd (saveTaskHistory now rnd stamp h arr)
          = drop k (arr @ [fst (saveTaskHistory now rnd stamp h arr)])"
proof (cases "length arr \<ge> 1000")
  case True
  then show ?thesis
    by (intro exI [of _ "length arr - 999"]) (simp add: saveTaskHistory_def Let_def)
next
  case False
  then show ?thesis
    by (intro exI [of _ 0]) (simp add: saveTaskHistory_def Let_def)
qed

text \<open>A query that names a task type sorts the array that \<open>filter\<close> built, not the store.\<close>

lemma query_with_task_type_keeps_store:
  "t \<noteq> [] \<Longrightarrow> snd (getTaskHistory (Some t) options arr) = arr"
  by (simp add: getTaskHistory_def Let_def)

text \<open>
  C3 (the code departs from the claim). The claim: a read leaves the stored records and
  their order as they are. The code: a query with no task type sorts the store itself.
  Two entries stored in the order of their start times come out of a default query
  stored in the opposite order, so that the next eviction, which drops from the front,
  no longer drops the entry that was appended first.
\<close>

theorem query_without_task_type_reorders_store:
  "map executionId
     (snd (getTaskHistory None no_options
             [entry_at ''exec-1'' ''cleanup'' ''2024-01-03T02:00:00.000Z'' 50,
              entry_at ''exec-2'' ''email-digest'' ''2024-01-04T06:00:00.000Z'' 30]))
   = [''exec-2'', ''exec-1'']"
  by code_simp

subsection \<open>Sorting with the comparator\<close>

lemma compareFn_pos: "(compareFn key order x y > 0) = (\<not> in_order key order x y)"
  by (cases key) (auto simp: compareFn_def in_order_def)

lemma in_order_total: "in_order key order x y \<or> in_order key order y x"
  by (cases key) (auto simp: in_order_def)

lemma in_order_trans:
  "in_order key order x y \<Longrightarrow> in_order key order y z \<Longrightarrow> in_order key order x z"
  by (cases key) (auto simp: in_order_def split: if_splits)

lemma mset_insert_by: "mset (insert_by cmp x xs) = add_mset x (mset xs)"
  by (induction xs) auto

lemma set_insert_by: "set (insert_by cmp x xs) = insert x (set xs)"
  by (induction xs) auto

lemma sorted_insert_by:
  assumes "sorted_wrt (in_order key order) xs"
  shows "sorted_wrt (in_order key order) (insert_by (compareFn key order) x xs)"
  using assms
proof (induction xs)
  case Nil
  show ?case by simp
next
  case (Cons y ys)
  show ?case
  proof (cases "compareFn key order x y > 0")
    case True
    then have "in_order key order y x"
      using compareFn_pos in_order_total by blast
    then show ?thesis using True Cons by (auto simp: set_insert_by)
  next
    case False
    then have xy: "in_order key order x y" by (simp add: compareFn_pos)
    have "in_order key order x z" if "z \<in> set ys" for z
      using xy Cons.prems that in_order_trans by auto
    then show ?thesis using False xy Cons.prems by auto
  qed
qed

lemma foldl_insert_by:
  "mset (foldl (\<lambda>acc x. insert_by cmp x acc) acc xs) = mset acc + mset xs"
  by (induction xs arbitrary: acc) (auto simp: mset_insert_by)

lemma foldl_insert_by_sorted:
  "sorted_wrt (in_order key order) acc \<Longrightarrow>
   sorted_wrt (in_order key order) (foldl (\<lambda>acc x. insert_by (compareFn key order) x acc) acc xs)"
  by (induction xs arbitrary: acc) (auto simp: sorted_insert_by)

lemma mset_js_sort: "mset (js_sort cmp xs) = mset xs"
  by (simp add: js_sort_def foldl_insert_by)

lemma length_js_sort: "length (js_sort cmp xs) = length xs"
  using mset_js_sort [of cmp xs] by (metis size_mset)

lemma sorted_js_sort: "sorted_wrt (in_order key order) (js_sort (compareFn key order) xs)"
  by (simp add: js_sort_def foldl_insert_by_sorted)

lemma js_slice_page:
  assumes "0 \<le> off" and "0 \<le> lim"
  shows "js_slice xs off (off + lim) = take (nat lim) (drop (nat off) xs)"
proof (cases "off < int (length xs)")
  case True
  show ?thesis
  proof (cases "off + lim \<le> int (length xs)")
    case True
    then show ?thesis using assms \<open>off < int (length xs)\<close>
      by (simp add: js_slice_def Let_def min_def)
  next
    case False
    then have "length (drop (nat off) xs) \<le> nat lim" using assms by simp
    moreover have "nat (int (length xs) - off) = length xs - nat off" using assms by simp
    ultimately show ?thesis using assms False \<open>off < int (length xs)\<close>
      by (simp add: js_slice_def Let_def min_def)
  qed
next
  case False
  then show ?thesis using assms by (simp add: js_slice_def Let_def min_def)
qed

text \<open>
  C7 as the claim states it fails: with \<open>limit = -1\<close>, \<open>slice\<close> counts the end of the page
  from the end of the array, and the query for the four \<open>cleanup\<close> entries answers with
  three of them, more than the limit; and a query for the task type \<open>''\<close>, which no entry
  has, is about all five entries.
\<close>

theorem query_negative_limit_counterexample:
  "map executionId
     (history (fst (getTaskHistory (Some ''cleanup'')
        \<lparr>limit = Some (- 1), offset = None, sortBy = None, sortOrder = None\<rparr> five_entries)))
     = [''exec-5'', ''exec-4'', ''exec-3''] \<and>
   page_limit (pagination (fst (getTaskHistory (Some ''cleanup'')
        \<lparr>limit = Some (- 1), offset = None, sortBy = None, sortOrder = None\<rparr> five_entries)))
     = - 1 \<and>
   map taskType (filter (\<lambda>h. taskType h = []) five_entries) = [] \<and>
   total (pagination (fst (getTaskHistory (Some []) no_options five_entries))) = 5"
  by code_simp

text \<open>
  C7, amended. For every store and every query whose limit and offset (10 and 0 when not
  given) are not negative: the entries that the query is about are those of the given
  task type when one is given and is not the empty string, and all entries otherwise;
  the page is cut from these entries sorted by the key in the order asked for, \<open>limit\<close>
  entries from position \<open>offset\<close> on, so it holds at most \<open>limit\<close> entries; \<open>total\<close> is the
  number of the matching entries; and \<open>hasMore\<close> says whether \<open>offset + limit < total\<close>.
\<close>

theorem query_filters_sorts_paginates:
  assumes "lim = (case limit options of None \<Rightarrow> 10 | Some l \<Rightarrow> l)"
    and "off = (case offset options of None \<Rightarrow> 0 | Some k \<Rightarrow> k)"
    and "0 \<le> lim" and "0 \<le> off"
  shows "\<exists>sorted_entries.
           mset sorted_entries = mset (matching ttype arr) \<and>
           sorted_wrt (in_order (case sortBy options of None \<Rightarrow> StartTime | Some k \<Rightarrow> k)
                                (case sortOrder options of None \<Rightarrow> ''desc'' | Some d \<Rightarrow> d))
                      sorted_entries \<and>
           history (fst (getTaskHistory ttype options arr))
             = take (nat lim) (drop (nat off) sorted_entries) \<and>
           int (length (history (fst (getTaskHistory ttype options arr)))) \<le> lim \<and>
           page_limit (pagination (fst (getTaskHistory ttype options arr))) = lim \<and>
           page_offset (pagination (fst (getTaskHistory ttype options arr))) = off \<and>
           total (pagination (fst (getTaskHistory ttype options arr)))
             = int (length (matching ttype arr)) \<and>
           hasMore (pagination (fst (getTaskHistory ttype options arr)))
             = (off + lim < int (length (matching ttype arr)))"
proof -
  define key where "key = (case sortBy options of None \<Rightarrow> StartTime | Some k \<Rightarrow> k)"
  define order where "order = (case sortOrder options of None \<Rightarrow> ''desc'' | Some d \<Rightarrow> d)"
  define srt where "srt = js_sort (compareFn key order) (matching ttype arr)"
  have filt: "(case ttype of None \<Rightarrow> arr
               | Some t \<Rightarrow> if t \<noteq> [] then filter (\<lambda>entry. taskType entry = t) arr else arr)
              = matching ttype arr"
    by (simp add: matching_def split: option.splits)
  have res: "fst (getTaskHistory ttype options arr) =
               \<lparr>history = js_slice srt off (off + lim),
                pagination = \<lparr>total = int (length srt), page_limit = lim, page_offset = off,
                              hasMore = (off + lim < int (length srt))\<rparr>\<rparr>"
    unfolding getTaskHistory_def filt
    by (simp add: Let_def assms(1,2) key_def order_def srt_def)
  have page: "js_slice srt off (off + lim) = take (nat lim) (drop (nat off) srt)"
    using assms(4,3) by (rule js_slice_page)
  have len: "int (length (take (nat lim) (drop (nat off) srt))) \<le> lim"
    using assms(3) by simp
  have "mset srt = mset (matching ttype arr)"
    by (simp add: srt_def mset_js_sort)
  moreover have "sorted_wrt (in_order key order) srt"
    by (simp add: srt_def sorted_js_sort)
  moreover have "length srt = length (matching ttype arr)"
    by (simp add: srt_def length_js_sort)
  ultimately show ?thesis
    using page len
    by (intro exI [of _ srt]) (simp add: res key_def order_def)
qed

theorem query_filters_sorts_paginates_witness:
  "(2::int) = (case limit \<lparr>limit = Some 2, offset = Some 1, sortBy = Some Duration,
                            sortOrder = Some ''ASC''\<rparr> of None \<Rightarrow> 10 | Some l \<Rightarrow> l) \<and>
   (1::int) = (case offset \<lparr>limit = Some 2, offset = Some 1, sortBy = Some Duration,
                             sortOrder = Some ''ASC''\<rparr> of None \<Rightarrow> 0 | Some k \<Rightarrow> k) \<and>
   (0::int) \<le> 2 \<and> (0::int) \<le> 1 \<and>
   (\<exists>sorted_entries.
      mset sorted_entries = mset (matching (Some ''cleanup'') five_entries) \<and>
      sorted_wrt (in_order Duration ''ASC'') sorted_entries \<and>
      history (fst (getTaskHistory (Some ''cleanup'')
          \<lparr>limit = Some 2, offset = Some 1, sortBy = Some Duration, sortOrder = Some ''ASC''\<rparr>
          five_entries))
        = take 2 (drop 1 sorted_entries)) \<and>
   map executionId (history (fst (getTaskHistory (Some ''cleanup'')
          \<lparr>limit = Some 2, offset = Some 1, sortBy = Some Duration, sortOrder = Some ''ASC''\<rparr>
          five_entries))) = [''exec-1'', ''exec-5''] \<and>
   total (pagination (fst (getTaskHistory (Some ''cleanup'')
          \<lparr>limit = Some 2, offset = Some 1, sortBy = Some Duration, sortOrder = Some ''ASC''\<rparr>
          five_entries))) = 4 \<and>
   hasMore (pagination (fst (getTaskHistory (Some ''cleanup'')
          \<lparr>limit = Some 2, offset = Some 1, sortBy = Some Duration, sortOrder = Some ''ASC''\<rparr>
          five_entries)))"
proof -
  let ?q = "\<lparr>limit = Some (2::int), offset = Some (1::int), sortBy = Some Duration,
              sortOrder = Some ''ASC''\<rparr>"
  let ?r = "fst (getTaskHistory (Some ''cleanup'') ?q five_entries)"
  have h1: "(2::int) = (case limit ?q of None \<Rightarrow> 10 | Some l \<Rightarrow> l)" by simp
  have h2: "(1::int) = (case offset ?q of None \<Rightarrow> 0 | Some k \<Rightarrow> k)" by simp
  have h3: "(0::int) \<le> 2" by simp
  have h4: "(0::int) \<le> 1" by simp
  have ids: "map executionId (history ?r) = [''exec-1'', ''exec-5'']" by code_simp
  have tot: "total (pagination ?r) = 4" by code_simp
  have more: "hasMore (pagination ?r)" by code_simp
  from query_filters_sorts_paginates [OF h1 h2 h3 h4, of "Some ''cleanup''" five_entries]
  obtain se where a: "mset se = mset (matching (Some ''cleanup'') five_entries)"
    and b: "sorted_wrt (in_order (case sortBy ?q of None \<Rightarrow> StartTime | Some k \<Rightarrow> k)
                             (case sortOrder ?q of None \<Rightarrow> ''desc'' | Some d \<Rightarrow> d)) se"
    and c: "history ?r = take (nat 2) (drop (nat 1) se)"
    by blast
  have b': "sorted_wrt (in_order Duration ''ASC'') se" using b by simp
  have c': "history ?r = take 2 (drop 1 se)" using c by simp
  have "\<exists>sorted_entries.
      mset sorted_entries = mset (matching (Some ''cleanup'') five_entries) \<and>
      sorted_wrt (in_order Duration ''ASC'') sorted_entries \<and>
      history ?r = take 2 (drop 1 sorted_entries)"
    using a b' c' by blast
  then show ?thesis
    using h1 h2 h3 h4 ids tot more by blast
qed

section \<open>Properties of the scheduler\<close>

lemma length_stop: "length (stop j js) = length js"
  by (simp add: stop_def)

lemma nth_stop:
  "i < length js \<Longrightarrow> stop j js ! i = (if i = j then (js ! i)\<lparr>running := False\<rparr> else js ! i)"
  by (simp add: stop_def nth_list_update)

text \<open>What a successful \<open>scheduleTask\<close> leaves: the old jobs, the one of the table's entry
  for the task type stopped, and a new running job at the end, which is the new entry.\<close>

lemma scheduleTask_Inr:
  assumes "scheduleTask validate defs t c st = Inr st'"
  shows "jobs st' = (case scheduledJobs st t of Some j \<Rightarrow> stop j (jobs st) | None \<Rightarrow> jobs st)
                      @ [\<lparr>jobTaskType = t, expression = c, running = True\<rparr>]"
    and "scheduledJobs st' = (scheduledJobs st)(t \<mapsto> length (jobs st))"
    and "ready st' = ready st"
    and "validate c" and "lookup defs t \<noteq> Missing"
  using assms
  by (auto simp: scheduleTask_def Let_def length_stop
        split: if_splits option.splits property.splits)

lemma scheduleTask_ok:
  "map_of defs t \<noteq> None \<Longrightarrow> validate c \<Longrightarrow> \<exists>st'. scheduleTask validate defs t c st = Inr st'"
  by (auto simp: scheduleTask_def Let_def lookup_def)

lemma scheduleTask_bad_cron:
  "map_of defs t \<noteq> None \<Longrightarrow> \<not> validate c \<Longrightarrow>
   scheduleTask validate defs t c st = Inl (InvalidCronExpression c t)"
  by (auto simp: scheduleTask_def lookup_def)

lemma table_ok_new: "table_ok new_scheduler"
  by (simp add: table_ok_def new_scheduler_def)

lemma scheduleTask_old_jobs:
  assumes s: "scheduleTask validate defs t c st = Inr st'" and i: "i < length (jobs st)"
  shows "jobTaskType (jobs st' ! i) = jobTaskType (jobs st ! i)"
    and "running (jobs st' ! i) = (running (jobs st ! i) \<and> scheduledJobs st t \<noteq> Some i)"
    and "expression (jobs st' ! i) = expression (jobs st ! i)"
  using i unfolding scheduleTask_Inr(1) [OF s]
  by (cases "scheduledJobs st t"; simp add: nth_append nth_stop length_stop)+

lemma scheduleTask_new_job:
  assumes s: "scheduleTask validate defs t c st = Inr st'"
  shows "length (jobs st') = Suc (length (jobs st))"
    and "jobs st' ! length (jobs st) = \<lparr>jobTaskType = t, expression = c, running = True\<rparr>"
  unfolding scheduleTask_Inr(1) [OF s]
  by (cases "scheduledJobs st t"; simp add: nth_append length_stop)+

lemma scheduleTask_table_ok:
  assumes s: "scheduleTask validate defs t c st = Inr st'" and ok: "table_ok st"
  shows "table_ok st'"
proof -
  let ?n = "length (jobs st)"
  have m: "scheduledJobs st' = (scheduledJobs st)(t \<mapsto> ?n)"
    using scheduleTask_Inr(2) [OF s] .
  have entry: "j < length (jobs st') \<and> jobTaskType (jobs st' ! j) = ta \<and> running (jobs st' ! j)"
    if e: "scheduledJobs st' ta = Some j" for ta j
  proof (cases "ta = t")
    case True
    then have "j = ?n" using e m by simp
    then show ?thesis using True scheduleTask_new_job [OF s] by simp
  next
    case False
    then have old: "scheduledJobs st ta = Some j" using e m by simp
    then have j: "j < ?n" "jobTaskType (jobs st ! j) = ta" "running (jobs st ! j)"
      using ok by (auto simp: table_ok_def)
    have "scheduledJobs st t \<noteq> Some j"
    proof
      assume "scheduledJobs st t = Some j"
      then have "jobTaskType (jobs st ! j) = t" using ok by (auto simp: table_ok_def)
      then show False using j(2) False by simp
    qed
    then show ?thesis
      using j scheduleTask_old_jobs [OF s j(1)] scheduleTask_new_job(1) [OF s] by simp
  qed
  have job: "scheduledJobs st' (jobTaskType (jobs st' ! j)) = Some j"
    if j: "j < length (jobs st')" and r: "running (jobs st' ! j)" for j
  proof (cases "j = ?n")
    case True
    then show ?thesis using m scheduleTask_new_job(2) [OF s] by simp
  next
    case False
    then have lt: "j < ?n" using j scheduleTask_new_job(1) [OF s] by simp
    have r0: "running (jobs st ! j)" and nt: "scheduledJobs st t \<noteq> Some j"
      using r scheduleTask_old_jobs(2) [OF s lt] by simp_all
    have tbl: "scheduledJobs st (jobTaskType (jobs st ! j)) = Some j"
      using ok lt r0 by (auto simp: table_ok_def)
    then have "jobTaskType (jobs st ! j) \<noteq> t" using nt by auto
    then show ?thesis
      using tbl m scheduleTask_old_jobs(1) [OF s lt] by simp
  qed
  show ?thesis
    unfolding table_ok_def using entry job by blast
qed

lemma schedule_calls_table_ok:
  "table_ok st \<Longrightarrow> table_ok (schedule_calls validate defs calls st)"
proof (induction calls arbitrary: st)
  case Nil
  then show ?case by simp
next
  case (Cons call calls)
  obtain t c where call: "call = (t, c)" by (cases call)
  show ?case
  proof (cases "scheduleTask validate defs t c st")
    case (Inl e)
    then show ?thesis using Cons call by simp
  next
    case (Inr st1)
    then have "table_ok st1" using Cons.prems scheduleTask_table_ok by blast
    then show ?thesis using Cons.IH Inr call by simp
  qed
qed

lemma schedule_entries_table_ok:
  "table_ok st \<Longrightarrow> table_ok (fst (schedule_entries validate defs es st))"
proof (induction es arbitrary: st)
  case Nil
  then show ?case by simp
next
  case (Cons e es)
  obtain t d where e: "e = (t, d)" by (cases e)
  show ?case
  proof (cases "cronSchedule d")
    case None
    then show ?thesis using Cons e by simp
  next
    case (Some c)
    show ?thesis
    proof (cases "c = []")
      case True
      then show ?thesis using Cons e Some by simp
    next
      case False
      show ?thesis
      proof (cases "scheduleTask validate defs t c st")
        case (Inl err)
        then show ?thesis using Cons.prems e Some False by simp
      next
        case (Inr st1)
        then have "table_ok st1" using Cons.prems scheduleTask_table_ok by blast
        then show ?thesis using Cons.IH e Some False Inr by simp
      qed
    qed
  qed
qed

lemma table_ok_ready: "table_ok (st\<lparr>ready := b\<rparr>) = table_ok st"
  by (simp add: table_ok_def)

lemma table_ok_setupScheduler: "table_ok (setupScheduler validate defs)"
proof -
  have ok: "table_ok (fst (schedule_entries validate defs defs new_scheduler))"
    using table_ok_new by (rule schedule_entries_table_ok)
  show ?thesis
    unfolding setupScheduler_def initialize_def using ok
    by (cases "schedule_entries validate defs defs new_scheduler")
       (auto simp: table_ok_ready split: option.splits)
qed

lemma filter_is_upt: "j0 < n \<Longrightarrow> filter (\<lambda>j. j = j0) [0..<n] = [j0]"
proof (induction n)
  case 0
  then show ?case by simp
next
  case (Suc n)
  show ?case
  proof (cases "j0 = n")
    case True
    then have "filter (\<lambda>j. j = j0) [0..<n] = []" by (auto simp: filter_empty_conv)
    then show ?thesis using True by simp
  next
    case False
    then show ?thesis using Suc by simp
  qed
qed

lemma live_entries_table:
  assumes "table_ok st"
  shows "live_entries st t = (case scheduledJobs st t of None \<Rightarrow> [] | Some j \<Rightarrow> [j])"
proof (cases "scheduledJobs st t")
  case None
  have "\<not> (running (jobs st ! j) \<and> jobTaskType (jobs st ! j) = t)" if "j < length (jobs st)" for j
    using assms None that by (auto simp: table_ok_def)
  then show ?thesis using None by (simp add: live_entries_def filter_empty_conv)
next
  case (Some j0)
  have j0: "j0 < length (jobs st)" using assms Some by (auto simp: table_ok_def)
  have "(running (jobs st ! j) \<and> jobTaskType (jobs st ! j) = t) = (j = j0)"
    if "j \<in> set [0..<length (jobs st)]" for j
    using assms Some that by (auto simp: table_ok_def)
  then have "live_entries st t = filter (\<lambda>j. j = j0) [0..<length (jobs st)]"
    unfolding live_entries_def by (rule filter_cong [OF refl])
  then show ?thesis using Some filter_is_upt [OF j0] by simp
qed

text \<open>A job that has been stopped is never started again.\<close>

lemma scheduleTask_keeps_stopped:
  assumes s: "scheduleTask validate defs t c st = Inr st'"
    and j: "j < length (jobs st)" and off: "\<not> running (jobs st ! j)"
  shows "j < length (jobs st') \<and> \<not> running (jobs st' ! j)"
  using j off scheduleTask_old_jobs(2) [OF s j] scheduleTask_new_job(1) [OF s] by simp

lemma schedule_calls_keep_stopped:
  "j < length (jobs st) \<Longrightarrow> \<not> running (jobs st ! j) \<Longrightarrow>
   \<not> fires (schedule_calls validate defs calls st) j"
proof (induction calls arbitrary: st)
  case Nil
  then show ?case by (simp add: fires_def)
next
  case (Cons call calls)
  obtain t c where call: "call = (t, c)" by (cases call)
  show ?case
  proof (cases "scheduleTask validate defs t c st")
    case (Inl e)
    then show ?thesis using Cons call by simp
  next
    case (Inr st1)
    then have "j < length (jobs st1) \<and> \<not> running (jobs st1 ! j)"
      using Cons.prems scheduleTask_keeps_stopped by blast
    then show ?thesis using Cons.IH Inr call by simp
  qed
qed

text \<open>
  C8. After \<open>setupScheduler\<close> and any sequence of \<open>scheduleTask\<close> calls, the running jobs
  of a task type are exactly the entry of the table for it, so at most one. A further
  \<open>scheduleTask\<close> for the task type that succeeds makes the new job the only running one
  of the type; the job that was the entry before still fired before the call, is stopped
  by it, and does not fire after any later calls: a tick of it runs nothing.
\<close>

theorem one_live_entry_per_task_type:
  assumes "st = schedule_calls validate defs calls (setupScheduler validate defs)"
  shows "length (live_entries st ttype) \<le> 1 \<and>
         live_entries st ttype = (case scheduledJobs st ttype of None \<Rightarrow> [] | Some j \<Rightarrow> [j]) \<and>
         (scheduleTask validate defs ttype c st = Inr st' \<longrightarrow>
            live_entries st' ttype = [length (jobs st)] \<and>
            scheduledJobs st' ttype = Some (length (jobs st)) \<and>
            expression (jobs st' ! length (jobs st)) = c \<and>
            (\<forall>j. scheduledJobs st ttype = Some j \<longrightarrow>
               fires st j \<and> \<not> fires st' j \<and>
               \<not> fires (schedule_calls validate defs later st') j \<and>
               tick fuel defs rd (schedule_calls validate defs later st') j sv = sv))"
proof -
  have ok: "table_ok st"
    using assms schedule_calls_table_ok [OF table_ok_setupScheduler] by simp
  have live: "live_entries st ttype = (case scheduledJobs st ttype of None \<Rightarrow> [] | Some j \<Rightarrow> [j])"
    using ok by (rule live_entries_table)
  have le: "length (live_entries st ttype) \<le> 1"
    unfolding live by (simp split: option.splits)
  have next_call: "live_entries st' ttype = [length (jobs st)] \<and>
            scheduledJobs st' ttype = Some (length (jobs st)) \<and>
            expression (jobs st' ! length (jobs st)) = c \<and>
            (\<forall>j. scheduledJobs st ttype = Some j \<longrightarrow>
               fires st j \<and> \<not> fires st' j \<and>
               \<not> fires (schedule_calls validate defs later st') j \<and>
               tick fuel defs rd (schedule_calls validate defs later st') j sv = sv)"
    if s: "scheduleTask validate defs ttype c st = Inr st'"
  proof -
    have ok': "table_ok st'" using s ok by (rule scheduleTask_table_ok)
    have m: "scheduledJobs st' ttype = Some (length (jobs st))"
      using scheduleTask_Inr(2) [OF s] by simp
    have l: "live_entries st' ttype = [length (jobs st)]"
      using live_entries_table [OF ok', of ttype] m by simp
    have e: "expression (jobs st' ! length (jobs st)) = c"
      using scheduleTask_new_job(2) [OF s] by simp
    have old: "fires st j \<and> \<not> fires st' j \<and> \<not> fires (schedule_calls validate defs later st') j \<and>
               tick fuel defs rd (schedule_calls validate defs later st') j sv = sv"
      if t: "scheduledJobs st ttype = Some j" for j
    proof -
      have j: "j < length (jobs st)" "running (jobs st ! j)"
        using ok t by (auto simp: table_ok_def)
      have stopped: "j < length (jobs st') \<and> \<not> running (jobs st' ! j)"
        using t j(1) scheduleTask_old_jobs(2) [OF s j(1)] scheduleTask_new_job(1) [OF s] by simp
      then have nf: "\<not> fires (schedule_calls validate defs later st') j"
        using schedule_calls_keep_stopped by blast
      then have quiet: "tick fuel defs rd (schedule_calls validate defs later st') j sv = sv"
        by (simp add: tick_def)
      have "fires st j \<and> \<not> fires st' j" using j stopped by (simp add: fires_def)
      then show ?thesis using nf quiet by simp
    qed
    show ?thesis using m l e old by blast
  qed
  show ?thesis using le live next_call by blast
qed

theorem one_live_entry_per_task_type_witness:
  "\<exists>st st'.
     st = schedule_calls five_fields three_tasks [(''cleanup'', ''0 3 * * 0'')]
            (setupScheduler five_fields three_tasks) \<and>
     scheduleTask five_fields three_tasks ''cleanup'' ''0 4 * * 0'' st = Inr st' \<and>
     scheduledJobs st ''cleanup'' = Some 3 \<and>
     live_entries st ''cleanup'' = [3] \<and>
     live_entries st' ''cleanup'' = [4] \<and>
     fires st 3 \<and> \<not> fires st' 3 \<and>
     \<not> fires (schedule_calls five_fields three_tasks [(''cleanup'', ''0 5 * * 0'')] st') 3 \<and>
     tick 3 three_tasks clock
       (schedule_calls five_fields three_tasks [(''cleanup'', ''0 5 * * 0'')] st') 3 idle = idle"
proof -
  define st where "st = schedule_calls five_fields three_tasks [(''cleanup'', ''0 3 * * 0'')]
            (setupScheduler five_fields three_tasks)"
  have t0: "scheduledJobs st ''cleanup'' = Some 3" and n: "length (jobs st) = 4"
    by (simp_all add: st_def setupScheduler_def initialize_def scheduleTask_def lookup_def three_tasks_def
          scheduled_task_def five_fields_def new_scheduler_def stop_def Let_def)
  have "map_of three_tasks ''cleanup'' \<noteq> None" by (simp add: three_tasks_def)
  moreover have "five_fields ''0 4 * * 0''" by (simp add: five_fields_def)
  ultimately obtain st' where s: "scheduleTask five_fields three_tasks ''cleanup'' ''0 4 * * 0'' st = Inr st'"
    using scheduleTask_ok by blast
  have "live_entries st ''cleanup'' = [3] \<and> live_entries st' ''cleanup'' = [4] \<and>
        fires st 3 \<and> \<not> fires st' 3 \<and>
        \<not> fires (schedule_calls five_fields three_tasks [(''cleanup'', ''0 5 * * 0'')] st') 3 \<and>
        tick 3 three_tasks clock
          (schedule_calls five_fields three_tasks [(''cleanup'', ''0 5 * * 0'')] st') 3 idle = idle"
    using one_live_entry_per_task_type
            [where ttype = "''cleanup''" and c = "''0 4 * * 0''" and st' = st'
               and later = "[(''cleanup'', ''0 5 * * 0'')]" and fuel = 3 and rd = clock
               and sv = idle, OF st_def] s t0 n
    by simp
  then show ?thesis using st_def s t0 by blast
qed

subsection \<open>Startup\<close>

lemma cron_entries_registered:
  "(t, c) \<in> set (cron_entries es) \<Longrightarrow> \<exists>d. (t, d) \<in> set es"
  by (induction es) (fastforce split: option.splits if_splits)+

lemma cron_entries_distinct:
  "distinct (map fst es) \<Longrightarrow> distinct (map fst (cron_entries es))"
proof (induction es)
  case Nil
  show ?case by simp
next
  case (Cons e es)
  obtain t d where e: "e = (t, d)" by (cases e)
  have "t \<notin> fst ` set (cron_entries es)"
  proof
    assume "t \<in> fst ` set (cron_entries es)"
    then obtain c where "(t, c) \<in> set (cron_entries es)" by auto
    then obtain d' where "(t, d') \<in> set es" using cron_entries_registered by blast
    then have "t \<in> fst ` set es" by force
    then show False using Cons.prems e by simp
  qed
  then show ?case using Cons e by (auto split: option.splits)
qed

lemma schedule_calls_ready: "ready (schedule_calls validate defs calls st) = ready st"
proof (induction calls arbitrary: st)
  case Nil
  show ?case by simp
next
  case (Cons call calls)
  obtain t c where call: "call = (t, c)" by (cases call)
  show ?case
  proof (cases "scheduleTask validate defs t c st")
    case (Inl e)
    then show ?thesis using Cons call by simp
  next
    case (Inr st1)
    then show ?thesis using Cons call scheduleTask_Inr(3) [OF Inr] by simp
  qed
qed

text \<open>The \<open>forEach\<close> of \<open>initialize\<close> is the sequence of \<open>scheduleTask\<close> calls for the entries
  with a cron expression, up to the first expression that is not valid.\<close>

lemma schedule_entries_all_valid:
  assumes "\<forall>(t, d) \<in> set es. map_of defs t \<noteq> None"
    and "\<forall>(t, c) \<in> set (cron_entries es). validate c"
  shows "schedule_entries validate defs es st
           = (schedule_calls validate defs (cron_entries es) st, None)"
  using assms
proof (induction es arbitrary: st)
  case Nil
  show ?case by simp
next
  case (Cons e es)
  obtain t d where e: "e = (t, d)" by (cases e)
  have reg: "map_of defs t \<noteq> None" using Cons.prems(1) e by simp
  have rest: "\<forall>(t, d) \<in> set es. map_of defs t \<noteq> None" using Cons.prems(1) by simp
  show ?case
  proof (cases "cronSchedule d")
    case None
    then show ?thesis using Cons.IH [OF rest] Cons.prems(2) e by simp
  next
    case (Some c)
    show ?thesis
    proof (cases "c = []")
      case True
      then show ?thesis using Cons.IH [OF rest] Cons.prems(2) e Some by simp
    next
      case False
      then have "validate c" using Cons.prems(2) e Some by simp
      then obtain st1 where s: "scheduleTask validate defs t c st = Inr st1"
        using reg scheduleTask_ok by blast
      have "\<forall>(t, c) \<in> set (cron_entries es). validate c"
        using Cons.prems(2) e Some False by simp
      then show ?thesis using Cons.IH [OF rest] e Some False s by simp
    qed
  qed
qed

lemma schedule_entries_first_invalid:
  assumes "\<forall>(t, d) \<in> set es. map_of defs t \<noteq> None"
    and "cron_entries es = pre @ (t, c) # post"
    and "\<forall>(t', c') \<in> set pre. validate c'" and "\<not> validate c"
  shows "schedule_entries validate defs es st
           = (schedule_calls validate defs pre st, Some (InvalidCronExpression c t))"
  using assms
proof (induction es arbitrary: st pre)
  case Nil
  then show ?case by simp
next
  case (Cons e es)
  obtain t0 d where e: "e = (t0, d)" by (cases e)
  have reg: "map_of defs t0 \<noteq> None" using Cons.prems(1) e by simp
  have rest: "\<forall>(t, d) \<in> set es. map_of defs t \<noteq> None" using Cons.prems(1) by simp
  show ?case
  proof (cases "cronSchedule d")
    case None
    then have "cron_entries es = pre @ (t, c) # post" using Cons.prems(2) e by simp
    then show ?thesis using Cons.IH [OF rest _ Cons.prems(3,4)] e None by simp
  next
    case (Some c0)
    show ?thesis
    proof (cases "c0 = []")
      case True
      then have "cron_entries es = pre @ (t, c) # post" using Cons.prems(2) e Some by simp
      then show ?thesis using Cons.IH [OF rest _ Cons.prems(3,4)] e Some True by simp
    next
      case False
      then have ce: "(t0, c0) # cron_entries es = pre @ (t, c) # post"
        using Cons.prems(2) e Some by simp
      show ?thesis
      proof (cases pre)
        case Nil
        then have "t0 = t" "c0 = c" using ce by simp_all
        then show ?thesis
          using Nil e Some False scheduleTask_bad_cron [OF reg] Cons.prems(4) by simp
      next
        case (Cons x pre')
        then have x: "x = (t0, c0)" and tl: "cron_entries es = pre' @ (t, c) # post"
          using ce by simp_all
        have v: "validate c0" and v': "\<forall>(t', c') \<in> set pre'. validate c'"
          using Cons.prems(3) Cons x by simp_all
        obtain st1 where s: "scheduleTask validate defs t0 c0 st = Inr st1"
          using reg v scheduleTask_ok by blast
        have "schedule_entries validate defs es st1
                = (schedule_calls validate defs pre' st1, Some (InvalidCronExpression c t))"
          using Cons.IH [OF rest tl v' Cons.prems(4)] .
        then show ?thesis using e Some False s Cons x by simp
      qed
    qed
  qed
qed

lemma scheduleTask_installs:
  assumes s: "scheduleTask validate defs t c st = Inr st'"
  shows "installed st' t c"
  unfolding installed_def fires_def
  using scheduleTask_Inr(2) [OF s] scheduleTask_new_job [OF s]
  by (intro exI [of _ "length (jobs st)"]) simp

lemma scheduleTask_keeps_installed:
  assumes s: "scheduleTask validate defs t' c' st = Inr st'" and ok: "table_ok st"
    and ne: "t' \<noteq> t" and i: "installed st t c"
  shows "installed st' t c"
proof -
  obtain j where j: "scheduledJobs st t = Some j" "j < length (jobs st)" "running (jobs st ! j)"
      "expression (jobs st ! j) = c"
    using i by (auto simp: installed_def fires_def)
  have "scheduledJobs st t' \<noteq> Some j"
  proof
    assume "scheduledJobs st t' = Some j"
    then have "jobTaskType (jobs st ! j) = t'" using ok by (auto simp: table_ok_def)
    moreover have "jobTaskType (jobs st ! j) = t" using ok j(1) by (auto simp: table_ok_def)
    ultimately show False using ne by simp
  qed
  then have "scheduledJobs st' t = Some j \<and> j < length (jobs st') \<and> running (jobs st' ! j) \<and>
             expression (jobs st' ! j) = c"
    using j ne scheduleTask_Inr(2) [OF s] scheduleTask_old_jobs [OF s j(2)]
      scheduleTask_new_job(1) [OF s]
    by simp
  then show ?thesis by (auto simp: installed_def fires_def)
qed

lemma schedule_calls_keep_installed:
  "table_ok st \<Longrightarrow> t \<notin> fst ` set calls \<Longrightarrow> installed st t c \<Longrightarrow>
   installed (schedule_calls validate defs calls st) t c"
proof (induction calls arbitrary: st)
  case Nil
  then show ?case by simp
next
  case (Cons call calls)
  obtain t' c' where call: "call = (t', c')" by (cases call)
  have ne: "t' \<noteq> t" and rest: "t \<notin> fst ` set calls" using Cons.prems(2) call by auto
  show ?case
  proof (cases "scheduleTask validate defs t' c' st")
    case (Inl e)
    then show ?thesis using Cons.IH [OF Cons.prems(1) rest Cons.prems(3)] call by simp
  next
    case (Inr st1)
    have "table_ok st1" using Inr Cons.prems(1) by (rule scheduleTask_table_ok)
    moreover have "installed st1 t c"
      using Inr Cons.prems(1) ne Cons.prems(3) by (rule scheduleTask_keeps_installed)
    ultimately show ?thesis using Cons.IH rest Inr call by simp
  qed
qed

lemma schedule_calls_install_all:
  assumes "table_ok st" and "distinct (map fst calls)"
    and "\<forall>(t, c) \<in> set calls. validate c \<and> map_of defs t \<noteq> None"
    and "(t, c) \<in> set calls"
  shows "installed (schedule_calls validate defs calls st) t c"
  using assms
proof (induction calls arbitrary: st)
  case Nil
  then show ?case by simp
next
  case (Cons call calls)
  obtain t0 c0 where call: "call = (t0, c0)" by (cases call)
  have "validate c0" "map_of defs t0 \<noteq> None" using Cons.prems(3) call by simp_all
  then obtain st1 where s: "scheduleTask validate defs t0 c0 st = Inr st1"
    using scheduleTask_ok by blast
  have ok1: "table_ok st1" using s Cons.prems(1) by (rule scheduleTask_table_ok)
  have d: "distinct (map fst calls)" "t0 \<notin> fst ` set calls" using Cons.prems(2) call by simp_all
  have v: "\<forall>(t, c) \<in> set calls. validate c \<and> map_of defs t \<noteq> None" using Cons.prems(3) by simp
  show ?case
  proof (cases "(t, c) = (t0, c0)")
    case True
    then have "installed st1 t c" using scheduleTask_installs [OF s] by simp
    then have "installed (schedule_calls validate defs calls st1) t c"
      using ok1 d(2) True schedule_calls_keep_installed by blast
    then show ?thesis using s call by simp
  next
    case False
    then have "(t, c) \<in> set calls" using Cons.prems(4) call by auto
    then have "installed (schedule_calls validate defs calls st1) t c"
      using Cons.IH [OF ok1 d(1) v] by simp
    then show ?thesis using s call by simp
  qed
qed

lemma schedule_calls_dom:
  assumes "\<forall>(t, c) \<in> set calls. validate c \<and> map_of defs t \<noteq> None"
  shows "dom (scheduledJobs (schedule_calls validate defs calls st))
           = dom (scheduledJobs st) \<union> fst ` set calls"
  using assms
proof (induction calls arbitrary: st)
  case Nil
  show ?case by simp
next
  case (Cons call calls)
  obtain t0 c0 where call: "call = (t0, c0)" by (cases call)
  have "validate c0" "map_of defs t0 \<noteq> None" using Cons.prems call by simp_all
  then obtain st1 where s: "scheduleTask validate defs t0 c0 st = Inr st1"
    using scheduleTask_ok by blast
  have "dom (scheduledJobs st1) = insert t0 (dom (scheduledJobs st))"
    using scheduleTask_Inr(2) [OF s] by simp
  moreover have "\<forall>(t, c) \<in> set calls. validate c \<and> map_of defs t \<noteq> None"
    using Cons.prems by simp
  ultimately show ?case using Cons.IH [of st1] s call by auto
qed

lemma installed_ready: "installed (st\<lparr>ready := b\<rparr>) t c = installed st t c"
  by (simp add: installed_def fires_def)

text \<open>
  C9. \<open>initialize\<close> on a new scheduler, for a registry with distinct task types: the
  scheduler that \<open>setupScheduler\<close> returns is ready exactly when every cron expression of
  the registry is valid, and then \<open>initialize\<close> has not failed and every task with a cron
  expression has its running job. When an expression is not valid, \<open>initialize\<close> fails
  with \<open>InvalidCronExpression\<close> for the first such entry, \<open>ready\<close> stays false, the
  entries before it keep their running jobs, and no other task type has an entry.
\<close>

theorem initialize_ready_iff_all_valid:
  assumes "distinct (map fst defs)"
  shows "(ready (setupScheduler validate defs)
            = (\<forall>(t, c) \<in> set (cron_entries defs). validate c)) \<and>
         ((\<forall>(t, c) \<in> set (cron_entries defs). validate c) \<longrightarrow>
            snd (initialize validate defs new_scheduler) = None \<and>
            (\<forall>(t, c) \<in> set (cron_entries defs).
               installed (fst (initialize validate defs new_scheduler)) t c)) \<and>
         (\<forall>pre t c post.
            cron_entries defs = pre @ (t, c) # post \<and> (\<forall>(t', c') \<in> set pre. validate c') \<and>
            \<not> validate c \<longrightarrow>
              initialize validate defs new_scheduler
                = (schedule_calls validate defs pre new_scheduler,
                   Some (InvalidCronExpression c t)) \<and>
              \<not> ready (fst (initialize validate defs new_scheduler)) \<and>
              (\<forall>(t', c') \<in> set pre.
                 installed (fst (initialize validate defs new_scheduler)) t' c') \<and>
              dom (scheduledJobs (fst (initialize validate defs new_scheduler)))
                = fst ` set pre)"
proof -
  have reg: "\<forall>(t, d) \<in> set defs. map_of defs t \<noteq> None"
  proof -
    have "map_of defs t \<noteq> None" if "(t, d) \<in> set defs" for t d
    proof -
      have "t \<in> fst ` set defs" using that by force
      then show ?thesis by (simp add: map_of_eq_None_iff)
    qed
    then show ?thesis by auto
  qed
  have regc: "map_of defs t \<noteq> None" if "(t, c) \<in> set (cron_entries defs)" for t c
    using cron_entries_registered [OF that] reg by auto
  have dist: "distinct (map fst (cron_entries defs))"
    using assms by (rule cron_entries_distinct)
  have good: "snd (initialize validate defs new_scheduler) = None \<and>
            ready (fst (initialize validate defs new_scheduler)) \<and>
            (\<forall>(t, c) \<in> set (cron_entries defs).
               installed (fst (initialize validate defs new_scheduler)) t c)"
    if all: "\<forall>(t, c) \<in> set (cron_entries defs). validate c"
  proof -
    have i: "initialize validate defs new_scheduler
               = ((schedule_calls validate defs (cron_entries defs) new_scheduler)\<lparr>ready := True\<rparr>, None)"
      using schedule_entries_all_valid [OF reg all] by (simp add: initialize_def)
    have v: "\<forall>(t, c) \<in> set (cron_entries defs). validate c \<and> map_of defs t \<noteq> None"
      using all regc by auto
    have "installed (schedule_calls validate defs (cron_entries defs) new_scheduler) t c"
      if "(t, c) \<in> set (cron_entries defs)" for t c
      using schedule_calls_install_all [OF table_ok_new dist v that] .
    then show ?thesis using i by (auto simp: installed_ready)
  qed
  have bad: "initialize validate defs new_scheduler
                = (schedule_calls validate defs pre new_scheduler,
                   Some (InvalidCronExpression c t)) \<and>
              \<not> ready (fst (initialize validate defs new_scheduler)) \<and>
              (\<forall>(t', c') \<in> set pre.
                 installed (fst (initialize validate defs new_scheduler)) t' c') \<and>
              dom (scheduledJobs (fst (initialize validate defs new_scheduler)))
                = fst ` set pre"
    if split: "cron_entries defs = pre @ (t, c) # post"
      and pre: "\<forall>(t', c') \<in> set pre. validate c'" and inv: "\<not> validate c"
    for pre t c post
  proof -
    have i: "initialize validate defs new_scheduler
               = (schedule_calls validate defs pre new_scheduler, Some (InvalidCronExpression c t))"
      using schedule_entries_first_invalid [OF reg split pre inv] by (simp add: initialize_def)
    have v: "\<forall>(t', c') \<in> set pre. validate c' \<and> map_of defs t' \<noteq> None"
      using pre regc split by auto
    have dp: "distinct (map fst pre)" using dist split by simp
    have inst: "installed (schedule_calls validate defs pre new_scheduler) t' c'"
      if "(t', c') \<in> set pre" for t' c'
      using schedule_calls_install_all [OF table_ok_new dp v that] .
    have "dom (scheduledJobs (schedule_calls validate defs pre new_scheduler)) = fst ` set pre"
      using schedule_calls_dom [OF v, of new_scheduler] by (simp add: new_scheduler_def)
    moreover have "\<not> ready (schedule_calls validate defs pre new_scheduler)"
      by (simp add: schedule_calls_ready new_scheduler_def)
    ultimately show ?thesis using i inst by auto
  qed
  have iff: "ready (fst (initialize validate defs new_scheduler))
            = (\<forall>(t, c) \<in> set (cron_entries defs). validate c)"
  proof (cases "\<forall>(t, c) \<in> set (cron_entries defs). validate c")
    case True
    then show ?thesis using good by simp
  next
    case False
    then have "\<exists>x \<in> set (cron_entries defs). \<not> validate (snd x)" by force
    then obtain pre x post where sp: "cron_entries defs = pre @ x # post"
      and nx: "\<not> validate (snd x)" and px: "\<forall>y \<in> set pre. \<not> \<not> validate (snd y)"
      using split_list_first_prop [of "cron_entries defs" "\<lambda>x. \<not> validate (snd x)"] by blast
    obtain t c where x: "x = (t, c)" by (cases x)
    have pv: "\<forall>(t', c') \<in> set pre. validate c'" using px by auto
    have sp': "cron_entries defs = pre @ (t, c) # post" using sp x by simp
    have nx': "\<not> validate c" using nx x by simp
    have "\<not> ready (fst (initialize validate defs new_scheduler))"
      using bad [OF sp' pv nx'] by blast
    then show ?thesis using False by simp
  qed
  have "ready (setupScheduler validate defs)
            = (\<forall>(t, c) \<in> set (cron_entries defs). validate c)"
    using iff by (simp add: setupScheduler_def)
  then show ?thesis using good bad by blast
qed

theorem initialize_ready_iff_all_valid_witness:
  "distinct (map fst one_bad_cron) \<and> distinct (map fst three_tasks) \<and>
   initialize five_fields one_bad_cron new_scheduler
     = (schedule_calls five_fields one_bad_cron [(''run-subscriptions'', ''0 0 * * *'')]
          new_scheduler,
        Some (InvalidCronExpression ''at six'' ''email-digest'')) \<and>
   \<not> ready (fst (initialize five_fields one_bad_cron new_scheduler)) \<and>
   installed (fst (initialize five_fields one_bad_cron new_scheduler))
     ''run-subscriptions'' ''0 0 * * *'' \<and>
   dom (scheduledJobs (fst (initialize five_fields one_bad_cron new_scheduler)))
     = {''run-subscriptions''} \<and>
   ready (setupScheduler five_fields three_tasks) \<and>
   \<not> ready (setupScheduler five_fields one_bad_cron) \<and>
   snd (initialize five_fields three_tasks new_scheduler) = None \<and>
   installed (fst (initialize five_fields three_tasks new_scheduler))
     ''run-subscriptions'' ''0 0 * * *'' \<and>
   installed (fst (initialize five_fields three_tasks new_scheduler))
     ''email-digest'' ''0 6 * * *'' \<and>
   installed (fst (initialize five_fields three_tasks new_scheduler)) ''cleanup'' ''0 2 * * 0''"
proof -
  have d1: "distinct (map fst one_bad_cron)" by (simp add: one_bad_cron_def)
  have d2: "distinct (map fst three_tasks)" by (simp add: three_tasks_def)
  have c1: "cron_entries one_bad_cron
              = [(''run-subscriptions'', ''0 0 * * *'')] @ (''email-digest'', ''at six'')
                  # [(''cleanup'', ''0 2 * * 0'')]"
    by (simp add: one_bad_cron_def scheduled_task_def)
  have c2: "cron_entries three_tasks
              = [(''run-subscriptions'', ''0 0 * * *''), (''email-digest'', ''0 6 * * *''),
                 (''cleanup'', ''0 2 * * 0'')]"
    by (simp add: three_tasks_def scheduled_task_def)
  have v1: "\<forall>(t', c') \<in> set [(''run-subscriptions'', ''0 0 * * *'')]. five_fields c'"
    by (simp add: five_fields_def)
  have v2: "\<not> five_fields ''at six''" by (simp add: five_fields_def)
  have v3: "\<forall>(t, c) \<in> set (cron_entries three_tasks). five_fields c"
    by (simp add: c2 five_fields_def)
  note bad_run = initialize_ready_iff_all_valid
        [OF d1, of five_fields, THEN conjunct2, THEN conjunct2, THEN spec, THEN spec,
         THEN spec, THEN spec, THEN mp, OF conjI [OF c1 conjI [OF v1 v2]]]
  note good_run = initialize_ready_iff_all_valid
        [OF d2, of five_fields, THEN conjunct2, THEN conjunct1, THEN mp, OF v3]
  have b1: "initialize five_fields one_bad_cron new_scheduler
     = (schedule_calls five_fields one_bad_cron [(''run-subscriptions'', ''0 0 * * *'')]
          new_scheduler,
        Some (InvalidCronExpression ''at six'' ''email-digest''))"
    and b2: "\<not> ready (fst (initialize five_fields one_bad_cron new_scheduler))"
    and b3: "\<forall>(t', c') \<in> set [(''run-subscriptions'', ''0 0 * * *'')].
               installed (fst (initialize five_fields one_bad_cron new_scheduler)) t' c'"
    and b4: "dom (scheduledJobs (fst (initialize five_fields one_bad_cron new_scheduler)))
               = fst ` set [(''run-subscriptions'', ''0 0 * * *'')]"
    using bad_run by iprover+
  have b3': "installed (fst (initialize five_fields one_bad_cron new_scheduler))
               ''run-subscriptions'' ''0 0 * * *''"
    using b3 by simp
  have b4': "dom (scheduledJobs (fst (initialize five_fields one_bad_cron new_scheduler)))
               = {''run-subscriptions''}"
    using b4 by simp
  have g1: "snd (initialize five_fields three_tasks new_scheduler) = None"
    and g2: "\<forall>(t, c) \<in> set (cron_entries three_tasks).
               installed (fst (initialize five_fields three_tasks new_scheduler)) t c"
    using good_run by iprover+
  have g3: "installed (fst (initialize five_fields three_tasks new_scheduler))
               ''run-subscriptions'' ''0 0 * * *'' \<and>
            installed (fst (initialize five_fields three_tasks new_scheduler))
               ''email-digest'' ''0 6 * * *'' \<and>
            installed (fst (initialize five_fields three_tasks new_scheduler))
               ''cleanup'' ''0 2 * * 0''"
    using g2 unfolding c2 by simp
  have r: "ready (setupScheduler five_fields three_tasks)"
    using initialize_ready_iff_all_valid [OF d2, of five_fields, THEN conjunct1] v3
    by (simp only: simp_thms)
  have nr: "\<not> ready (setupScheduler five_fields one_bad_cron)"
    using b2 by (simp add: setupScheduler_def)
  show ?thesis
    using d1 d2 b1 b2 b3' b4' r nr g1 g3 by iprover
qed

end
